theory Spec2Isabelle
  imports Main "HOL-Library.Sublist" "HOL-Library.Multiset"
begin

section \<open>String helpers of the JavaScript runtime\<close>

text \<open>
  Strings are lists of characters. The helpers below are the string methods that
  \<^verbatim>\<open>loadPageFunctions.js\<close> calls, written out on lists.
\<close>

definition starts_with :: "string \<Rightarrow> string \<Rightarrow> bool" where
  \<comment> \<open>\<^verbatim>\<open>s.startsWith(p)\<close>\<close>
  "starts_with p s = (take (length p) s = p)"

definition ends_with :: "string \<Rightarrow> string \<Rightarrow> bool" where
  \<comment> \<open>\<^verbatim>\<open>s.endsWith(p)\<close>\<close>
  "ends_with p s = (length p \<le> length s \<and> drop (length s - length p) s = p)"

definition js_slice :: "nat \<Rightarrow> nat \<Rightarrow> string \<Rightarrow> string" where
  \<comment> \<open>\<^verbatim>\<open>s.slice(a, -b)\<close>: empty when the two ends cross\<close>
  "js_slice a b s = drop a (take (length s - b) s)"

fun split_on :: "char \<Rightarrow> string \<Rightarrow> string list" where
  \<comment> \<open>\<^verbatim>\<open>s.split(d)\<close> for a one-character separator: the empty string gives one empty piece\<close>
  "split_on d [] = [[]]"
| "split_on d (c # cs) =
     (if c = d then [] # split_on d cs
      else (case split_on d cs of
              w # ws \<Rightarrow> (c # w) # ws
            | [] \<Rightarrow> [[c]]))"

fun join_with :: "string \<Rightarrow> string list \<Rightarrow> string" where
  \<comment> \<open>\<^verbatim>\<open>xs.join(d)\<close>\<close>
  "join_with d [] = []"
| "join_with d [x] = x"
| "join_with d (x # y # ys) = x @ d @ join_with d (y # ys)"

definition to_posix :: "string \<Rightarrow> string" where
  \<comment> \<open>\<^verbatim>\<open>s.replace(/\\/g, "/")\<close>: every backslash (code 92) becomes a slash\<close>
  "to_posix s = map (\<lambda>c. if c = char_of (92::nat) then CHR ''/'' else c) s"

definition strip_trailing_slashes :: "string \<Rightarrow> string" where
  \<comment> \<open>\<^verbatim>\<open>s.replace(/\/+$/, "")\<close>\<close>
  "strip_trailing_slashes s = rev (dropWhile (\<lambda>c. c = CHR ''/'') (rev s))"

definition strip_leading_slashes :: "string \<Rightarrow> string" where
  \<comment> \<open>\<^verbatim>\<open>s.replace(/^\/+/, "")\<close>\<close>
  "strip_leading_slashes s = dropWhile (\<lambda>c. c = CHR ''/'') s"

definition word_char :: "char \<Rightarrow> bool" where
  \<comment> \<open>the character class \<^verbatim>\<open>[A-Za-z0-9_]\<close>\<close>
  "word_char c =
     (let n = (of_char c :: nat)
      in (65 \<le> n \<and> n \<le> 90) \<or> (97 \<le> n \<and> n \<le> 122) \<or> (48 \<le> n \<and> n \<le> 57) \<or> n = 95)"

definition set_add :: "'a list \<Rightarrow> 'a \<Rightarrow> 'a list" where
  \<comment> \<open>\<^verbatim>\<open>set.add(x)\<close> on a JavaScript \<^verbatim>\<open>Set\<close>, kept as the list of its members in insertion order\<close>
  "set_add xs x = (if x \<in> set xs then xs else xs @ [x])"

definition new_Set :: "'a list \<Rightarrow> 'a list" where
  \<comment> \<open>\<^verbatim>\<open>new Set(xs)\<close>: the first occurrence of each member, in order\<close>
  "new_Set xs = foldl set_add [] xs"

section \<open>The path compiler: \<^verbatim>\<open>filepathToRoutes\<close>\<close>

record route =
  path :: string
  arrayParams :: "string list"

record compiled =
  routes :: "route list"
  isMiddleware :: bool

definition has_script_ext :: "string \<Rightarrow> bool" where
  \<comment> \<open>\<^verbatim>\<open>p.match(/\.([jt]s)$/)\<close>\<close>
  "has_script_ext p = (ends_with ''.js'' p \<or> ends_with ''.ts'' p)"

definition expand :: "string \<Rightarrow> string list list" where
  "expand seg =
     (if starts_with ''[[...'' seg \<and> ends_with '']]'' seg
        then [[], [CHR '':'' # js_slice 5 2 seg @ ''{.+}'']]
      else if starts_with ''[['' seg \<and> ends_with '']]'' seg
        then [[], [CHR '':'' # js_slice 2 2 seg]]
      else if starts_with ''[...'' seg \<and> ends_with '']'' seg
        then [[CHR '':'' # js_slice 4 1 seg @ ''{.+}'']]
      else if starts_with ''['' seg \<and> ends_with '']'' seg
        then [[CHR '':'' # js_slice 1 1 seg]]
      else [[seg]])"

definition product_step :: "string list list \<Rightarrow> string list list \<Rightarrow> string list list" where
  \<comment> \<open>one round of the loop over \<^verbatim>\<open>parts\<close>: every prefix extended by every choice\<close>
  "product_step routesParts choices =
     concat (map (\<lambda>pref. map (\<lambda>choice. pref @ choice) choices) routesParts)"

definition ends_with_named_param :: "string \<Rightarrow> bool" where
  \<comment> \<open>\<^verbatim>\<open>r.match(/\/:([A-Za-z0-9_]+)$/)\<close>: some suffix of \<open>r\<close> is a slash, a colon and a non-empty name\<close>
  "ends_with_named_param r =
     list_ex (\<lambda>s. case s of
                 a # b # name \<Rightarrow> a = CHR ''/'' \<and> b = CHR '':'' \<and> name \<noteq> [] \<and> list_all word_char name
               | _ \<Rightarrow> False) (suffixes r)"

function rest_params :: "string \<Rightarrow> string list" where
  \<comment> \<open>the names captured by \<^verbatim>\<open>pathStr.matchAll(/:([A-Za-z0-9_]+)\{\.\+\}/g)\<close>, left to right\<close>
  "rest_params [] = []"
| "rest_params (c # cs) =
     (if c = CHR '':'' \<and> takeWhile word_char cs \<noteq> [] \<and> starts_with ''{.+}'' (dropWhile word_char cs)
      then takeWhile word_char cs # rest_params (drop 4 (dropWhile word_char cs))
      else rest_params cs)"
  by pat_completeness auto
termination
proof (relation "measure length")
  fix c :: char and cs :: string
  have "length (dropWhile word_char cs) \<le> length cs"
    by (rule length_dropWhile_le)
  then show "(drop 4 (dropWhile word_char cs), c # cs) \<in> measure length"
    by simp
qed simp_all

definition opt_tail :: "string \<Rightarrow> string option" where
  \<comment> \<open>\<^verbatim>\<open>lastRaw.match(/^\[\[([A-Za-z0-9_]+)\]\]$/)?.[1] || null\<close>\<close>
  "opt_tail lastRaw =
     (if starts_with ''[['' lastRaw \<and> ends_with '']]'' lastRaw \<and> 4 < length lastRaw
         \<and> list_all word_char (js_slice 2 2 lastRaw)
      then Some (js_slice 2 2 lastRaw) else None)"

definition array_params_of :: "string option \<Rightarrow> string \<Rightarrow> string list" where
  \<comment> \<open>the body of the loop over \<^verbatim>\<open>augmented\<close>: the rest captures, then the optional tail\<close>
  "array_params_of optTail pathStr =
     (let captured = foldl set_add [] (rest_params pathStr)
      in case optTail of
           None \<Rightarrow> captured
         | Some t \<Rightarrow>
             if ends_with (''/:'' @ t) pathStr \<or> ends_with (''/:'' @ t @ ''{.+}'') pathStr
             then set_add captured t else captured)"

definition filepathToRoutes :: "string \<Rightarrow> string \<Rightarrow> compiled" where
  "filepathToRoutes filepath baseDir =
     (let posixPath = to_posix filepath;
          posixBase = strip_trailing_slashes (to_posix baseDir);
          p0 = (if starts_with (posixBase @ ''/'') posixPath
                then drop (length posixBase + 1) posixPath else posixPath);
          p = (if has_script_ext p0 then take (length p0 - 3) p0 else p0);
          allSegs = filter (\<lambda>s. s \<noteq> []) (split_on CHR ''/'' p);
          popped = (if allSegs = [] then None else Some (last allSegs));
          isMw = (popped = Some ''_middleware'');
          rawSegs = (case popped of
                       None \<Rightarrow> []
                     | Some l \<Rightarrow> if l = ''_middleware'' \<or> l = ''index''
                                 then butlast allSegs else allSegs);
          parts = map expand rawSegs;
          routesParts = foldl product_step [[]] parts;
          baseRoutes0 = new_Set (map (\<lambda>pp. CHR ''/'' #
                           strip_leading_slashes (join_with ''/'' (filter (\<lambda>s. s \<noteq> []) pp))) routesParts);
          baseRoutes = (if baseRoutes0 = [] then [''/''] else baseRoutes0);
          augmented = foldl (\<lambda>acc r. if ends_with_named_param r then set_add acc (r @ ''{.+}'') else acc)
                        baseRoutes baseRoutes;
          lastRaw = (if rawSegs = [] then [] else last rawSegs);
          optTail = opt_tail lastRaw
      in \<lparr> routes = map (\<lambda>pathStr. \<lparr> path = pathStr, arrayParams = array_params_of optTail pathStr \<rparr>) augmented,
           isMiddleware = isMw \<rparr>)"

section \<open>Values, header collections and responses\<close>

text \<open>
  What a handler may return. A \<^verbatim>\<open>Response\<close> object is a reference into a heap of
  responses, so that identity (\<^verbatim>\<open>===\<close>) and mutation through a shared reference can be
  told apart from copying. Plain objects and arrays are values. A number is a double; the
  loader does no arithmetic, so a number is given by the two things that can be observed
  of it: its integer part (what a conversion to an integer type reads; 0 for NaN and the
  infinities) and its text (what \<^verbatim>\<open>ToString\<close> gives, such as \<^verbatim>\<open>1.5\<close>, \<^verbatim>\<open>1e+21\<close> or
  \<^verbatim>\<open>NaN\<close>).
\<close>

datatype jsval =
    JUndefined
  | JNull
  | JBool bool
  | JNum int string
  | JStr string
  | JBigInt int
  | JSymbol string
  | JResponse nat
  | JObject "(string \<times> jsval) list"
  | JArray "jsval list"

datatype js_error =
    TypeError
  | RangeError
  | ChainProtocolError  \<comment> \<open>\<^verbatim>\<open>new Error("next() called multiple times")\<close>\<close>
  | UserError string    \<comment> \<open>anything a handler or the downstream pipeline throws\<close>

definition lower_char :: "char \<Rightarrow> char" where
  \<comment> \<open>\<^verbatim>\<open>toLowerCase\<close> on one code unit below 256: A-Z, and the Latin-1 capitals but the times sign\<close>
  "lower_char c =
     (let n = (of_char c :: nat)
      in if (65 \<le> n \<and> n \<le> 90) \<or> (192 \<le> n \<and> n \<le> 222 \<and> n \<noteq> 215) then char_of (n + 32) else c)"

definition to_lower :: "string \<Rightarrow> string" where
  "to_lower s = map lower_char s"

definition js_space :: "char \<Rightarrow> bool" where
  \<comment> \<open>the white space and line terminators below code 256 that \<^verbatim>\<open>trim\<close> removes\<close>
  "js_space c = ((of_char c :: nat) \<in> {9, 10, 11, 12, 13, 32, 160})"

definition trim :: "string \<Rightarrow> string" where
  "trim s = rev (dropWhile js_space (rev (dropWhile js_space s)))"

type_synonym header_list = "(string \<times> string) list"

text \<open>
  A \<^verbatim>\<open>Headers\<close> object is the list of its entries, names kept in lower case as the
  platform does. \<^verbatim>\<open>get\<close> and \<^verbatim>\<open>set\<close> are given a valid name and value (the loader
  sets \<^verbatim>\<open>Vary\<close> and \<^verbatim>\<open>X-Trace-Id\<close>); building a collection from a value a handler
  returned validates every name and value, and can raise.
\<close>

definition headers_get :: "header_list \<Rightarrow> string \<Rightarrow> string option" where
  \<comment> \<open>\<^verbatim>\<open>h.get(name)\<close>: the values under the name joined by a comma and a space, or null\<close>
  "headers_get hs name =
     (case filter (\<lambda>kv. fst kv = to_lower name) hs of
        [] \<Rightarrow> None
      | kvs \<Rightarrow> Some (join_with '', '' (map snd kvs)))"

fun replace_first :: "string \<Rightarrow> string \<Rightarrow> header_list \<Rightarrow> header_list" where
  "replace_first k v [] = []"
| "replace_first k v (kv # hs) =
     (if fst kv = k then (k, v) # filter (\<lambda>e. fst e \<noteq> k) hs else kv # replace_first k v hs)"

definition headers_set :: "header_list \<Rightarrow> string \<Rightarrow> string \<Rightarrow> header_list" where
  \<comment> \<open>\<^verbatim>\<open>h.set(name, value)\<close>: the first entry of the name is overwritten and the others removed,
      or a new entry is appended\<close>
  "headers_set hs name v =
     (if to_lower name \<in> fst ` set hs then replace_first (to_lower name) v hs
      else hs @ [(to_lower name, v)])"

datatype body = BNull | BText string | BJson jsval

record response =
  status :: nat
  statusText :: string
  body :: body
  headers :: header_list
  bodyUsed :: bool      \<comment> \<open>the body stream has been read, or is locked by a reader\<close>

type_synonym heap = "response list"

definition obj_get :: "heap \<Rightarrow> nat \<Rightarrow> response option" where
  "obj_get h a = (if a < length h then Some (h ! a) else None)"

definition obj_alloc :: "heap \<Rightarrow> response \<Rightarrow> nat \<times> heap" where
  \<comment> \<open>a new object: a fresh address, the heap extended\<close>
  "obj_alloc h r = (length h, h @ [r])"

definition obj_update :: "heap \<Rightarrow> nat \<Rightarrow> (response \<Rightarrow> response) \<Rightarrow> heap" where
  \<comment> \<open>mutation in place through a reference; nothing happens at an address that holds no object\<close>
  "obj_update h a f = (if a < length h then h[a := f (h ! a)] else h)"

section \<open>The host context\<close>

text \<open>
  The per-request context \<^verbatim>\<open>c\<close> of the host router: the three keys the loader keeps in
  the per-request store (\<^verbatim>\<open>c.get\<close>/\<^verbatim>\<open>c.set\<close>), the host's in-progress response
  \<^verbatim>\<open>c.res\<close>, and the heap of response objects alive in the request.
\<close>

record request =
  req_id :: nat         \<comment> \<open>object identity, compared by \<^verbatim>\<open>!==\<close>\<close>
  req_method :: string
  req_url :: string

record hono =
  trace_id :: "string option"           \<comment> \<open>\<^verbatim>\<open>__trace_id__\<close>\<close>
  override_request :: "request option"  \<comment> \<open>\<^verbatim>\<open>__cf_override_request__\<close>\<close>
  mutable_response :: "nat option"      \<comment> \<open>\<^verbatim>\<open>__cf_mutable_response__\<close>\<close>
  c_res :: "nat option"                 \<comment> \<open>\<^verbatim>\<open>c.res\<close>\<close>
  heap :: heap
  next_req_id :: nat                    \<comment> \<open>the identity the next new \<^verbatim>\<open>Request\<close> object gets\<close>

definition empty_response :: response where
  "empty_response = \<lparr> status = 200, statusText = [], body = BNull, headers = [], bodyUsed = False \<rparr>"

definition hono_header :: "string \<Rightarrow> string \<Rightarrow> hono \<Rightarrow> hono" where
  \<comment> \<open>The host's \<^verbatim>\<open>c.header(name, value)\<close>, as the host router documents it: the header is
      set (overwritten) on the header collection of the context's response, the one
      \<^verbatim>\<open>c.res.headers\<close> reads; a context with no response yet gets an empty one.\<close>
  "hono_header name v c =
     (case c_res c of
        Some a \<Rightarrow> c\<lparr> heap := obj_update (heap c) a (\<lambda>r. r\<lparr> headers := headers_set (headers r) name v \<rparr>) \<rparr>
      | None \<Rightarrow>
          (let (a, h) = obj_alloc (heap c) (empty_response\<lparr> headers := headers_set [] name v \<rparr>)
           in c\<lparr> heap := h, c_res := Some a \<rparr>))"

definition res_header :: "hono \<Rightarrow> string \<Rightarrow> string option" where
  \<comment> \<open>\<^verbatim>\<open>c.res?.headers?.get?.(name)\<close>\<close>
  "res_header c name =
     (case c_res c of
        None \<Rightarrow> None
      | Some a \<Rightarrow> (case obj_get (heap c) a of None \<Rightarrow> None | Some r \<Rightarrow> headers_get (headers r) name))"

definition vary_tokens :: "string \<Rightarrow> string list" where
  \<comment> \<open>\<^verbatim>\<open>prev.split(",").map((s) => s.trim().toLowerCase())\<close>\<close>
  "vary_tokens prev = map (\<lambda>s. to_lower (trim s)) (split_on CHR '','' prev)"

definition ensureVaryOrigin :: "hono \<Rightarrow> hono" where
  "ensureVaryOrigin c =
     (case res_header c ''Vary'' of
        None \<Rightarrow> hono_header ''Vary'' ''Origin'' c
      | Some prev \<Rightarrow>
          if prev = [] then hono_header ''Vary'' ''Origin'' c
          else if ''origin'' \<notin> set (vary_tokens prev) then hono_header ''Vary'' (prev @ '', Origin'') c
          else c)"

definition wf_hono :: "hono \<Rightarrow> bool" where
  \<comment> \<open>the references the context holds point at objects\<close>
  "wf_hono c =
     ((case c_res c of None \<Rightarrow> True | Some a \<Rightarrow> a < length (heap c)) \<and>
      (case mutable_response c of None \<Rightarrow> True | Some a \<Rightarrow> a < length (heap c)))"

definition fresh_hono :: hono where
  "fresh_hono = \<lparr> trace_id = None, override_request = None, mutable_response = None,
                  c_res = None, heap = [], next_req_id = 0 \<rparr>"

section \<open>The platform's constructors\<close>

text \<open>
  The loader builds responses with the platform's \<^verbatim>\<open>new Response\<close>, \<^verbatim>\<open>Response.json\<close>
  and \<^verbatim>\<open>new Headers\<close>. They are written out here as far as the loader can observe
  them: which calls raise, and the status, body and headers of the result. A numeric
  string is read as a status in plain decimal only. A response shares its body stream
  with the response it was built from; the model copies the body and keeps, per
  response, whether its stream has been read or locked.
\<close>

definition js_truthy :: "jsval \<Rightarrow> bool" where
  "js_truthy v =
     (case v of
        JUndefined \<Rightarrow> False
      | JNull \<Rightarrow> False
      | JBool b \<Rightarrow> b
      | JNum n t \<Rightarrow> t \<noteq> ''0'' \<and> t \<noteq> ''NaN''
      | JStr s \<Rightarrow> s \<noteq> []
      | JBigInt n \<Rightarrow> n \<noteq> 0
      | _ \<Rightarrow> True)"

fun digits_of :: "nat \<Rightarrow> string" where
  \<comment> \<open>a BigInt prints as its exact decimal numeral\<close>
  "digits_of n = (if n < 10 then [char_of (48 + n)] else digits_of (n div 10) @ [char_of (48 + n mod 10)])"

definition show_int :: "int \<Rightarrow> string" where
  "show_int n = (if n < 0 then CHR ''-'' # digits_of (nat (- n)) else digits_of (nat n))"

fun collect :: "(js_error + 'a) list \<Rightarrow> js_error + 'a list" where
  \<comment> \<open>the results in order, or the first error\<close>
  "collect [] = Inr []"
| "collect (Inl e # xs) = Inl e"
| "collect (Inr x # xs) = (case collect xs of Inl e \<Rightarrow> Inl e | Inr ys \<Rightarrow> Inr (x # ys))"

fun js_to_string :: "jsval \<Rightarrow> js_error + string" where
  \<comment> \<open>the language's \<^verbatim>\<open>ToString\<close>; a Symbol cannot be converted\<close>
  "js_to_string JUndefined = Inr ''undefined''"
| "js_to_string JNull = Inr ''null''"
| "js_to_string (JBool b) = Inr (if b then ''true'' else ''false'')"
| "js_to_string (JNum n t) = Inr t"
| "js_to_string (JStr s) = Inr s"
| "js_to_string (JBigInt n) = Inr (show_int n)"
| "js_to_string (JSymbol s) = Inl TypeError"
| "js_to_string (JResponse a) = Inr ''[object Response]''"
| "js_to_string (JObject ps) = Inr ''[object Object]''"
| "js_to_string (JArray xs) =
     (case collect (map (\<lambda>x. if x = JUndefined \<or> x = JNull then Inr [] else js_to_string x) xs) of
        Inl e \<Rightarrow> Inl e
      | Inr ss \<Rightarrow> Inr (join_with '','' ss))"

fun json_serializable :: "jsval \<Rightarrow> bool" where
  \<comment> \<open>whether \<^verbatim>\<open>JSON.stringify\<close> returns: it raises on a BigInt anywhere in the value, and
      skips or nulls what it cannot encode otherwise\<close>
  "json_serializable (JBigInt n) = False"
| "json_serializable (JObject ps) = list_all (\<lambda>kv. json_serializable (snd kv)) ps"
| "json_serializable (JArray xs) = list_all json_serializable xs"
| "json_serializable v = True"

definition is_digit :: "char \<Rightarrow> bool" where
  "is_digit c = (48 \<le> (of_char c :: nat) \<and> (of_char c :: nat) \<le> 57)"

definition parse_decimal :: "string \<Rightarrow> nat" where
  "parse_decimal s = foldl (\<lambda>acc c. 10 * acc + ((of_char c :: nat) - 48)) 0 s"

definition string_to_status :: "string \<Rightarrow> nat" where
  \<comment> \<open>a string as a number, then as an unsigned short: not a numeral gives 0\<close>
  "string_to_status s =
     (let t = trim s in if t \<noteq> [] \<and> list_all is_digit t then parse_decimal t mod 65536 else 0)"

definition status_of_jsval :: "jsval \<Rightarrow> js_error + nat" where
  \<comment> \<open>the \<^verbatim>\<open>status\<close> member of a response init, converted to an unsigned short\<close>
  "status_of_jsval v =
     (case v of
        JUndefined \<Rightarrow> Inr 200
      | JNull \<Rightarrow> Inr 0
      | JBool b \<Rightarrow> Inr (if b then 1 else 0)
      | JNum n t \<Rightarrow> Inr (nat (n mod 65536))
      | JBigInt n \<Rightarrow> Inl TypeError
      | JSymbol s \<Rightarrow> Inl TypeError
      | _ \<Rightarrow> (case js_to_string v of Inl e \<Rightarrow> Inl e | Inr s \<Rightarrow> Inr (string_to_status s)))"

definition token_char :: "char \<Rightarrow> bool" where
  \<comment> \<open>the characters of a header name: letters, digits and \<^verbatim>\<open>!#$%&'*+-.^_`|~\<close>\<close>
  "token_char c =
     (let n = (of_char c :: nat)
      in (48 \<le> n \<and> n \<le> 57) \<or> (65 \<le> n \<and> n \<le> 90) \<or> (97 \<le> n \<and> n \<le> 122)
         \<or> n \<in> {33, 35, 36, 37, 38, 39, 42, 43, 45, 46, 94, 95, 96, 124, 126})"

definition valid_header_name :: "string \<Rightarrow> bool" where
  "valid_header_name k = (k \<noteq> [] \<and> list_all token_char k)"

definition http_space :: "char \<Rightarrow> bool" where
  "http_space c = ((of_char c :: nat) \<in> {9, 10, 13, 32})"

definition normalize_value :: "string \<Rightarrow> string" where
  \<comment> \<open>leading and trailing HTTP white space removed\<close>
  "normalize_value s = rev (dropWhile http_space (rev (dropWhile http_space s)))"

definition valid_header_value :: "string \<Rightarrow> bool" where
  \<comment> \<open>no NUL, line feed or carriage return\<close>
  "valid_header_value s = list_all (\<lambda>c. (of_char c :: nat) \<notin> {0, 10, 13}) s"

definition header_entry :: "string \<Rightarrow> jsval \<Rightarrow> js_error + (string \<times> string)" where
  \<comment> \<open>one name and value appended to a new collection: the value as a string, normalized;
      an invalid name or value raises\<close>
  "header_entry k v =
     (case js_to_string v of
        Inl e \<Rightarrow> Inl e
      | Inr s \<Rightarrow>
          if valid_header_name k \<and> valid_header_value (normalize_value s)
          then Inr (to_lower k, normalize_value s) else Inl TypeError)"

definition headers_of_jsval :: "jsval \<Rightarrow> js_error + header_list" where
  \<comment> \<open>\<^verbatim>\<open>new Headers(init)\<close>: a record of names and values, or a sequence of pairs\<close>
  "headers_of_jsval v =
     (case v of
        JUndefined \<Rightarrow> Inr []
      | JObject ps \<Rightarrow> collect (map (\<lambda>kv. header_entry (fst kv) (snd kv)) ps)
      | JArray xs \<Rightarrow>
          collect (map (\<lambda>x. case x of
                               JArray [k, w] \<Rightarrow>
                                 (case js_to_string k of Inl e \<Rightarrow> Inl e | Inr ks \<Rightarrow> header_entry ks w)
                             | _ \<Rightarrow> Inl TypeError) xs)
      | JResponse a \<Rightarrow> Inr []
      | _ \<Rightarrow> Inl TypeError)"

definition body_of_jsval :: "jsval \<Rightarrow> js_error + (body \<times> string option)" where
  \<comment> \<open>the body argument of \<^verbatim>\<open>new Response\<close>, with the content type a text body brings\<close>
  "body_of_jsval v =
     (if v = JUndefined \<or> v = JNull then Inr (BNull, None)
      else case js_to_string v of
             Inl e \<Rightarrow> Inl e
           | Inr s \<Rightarrow> Inr (BText s, Some ''text/plain;charset=UTF-8''))"

definition null_body_status :: "nat \<Rightarrow> bool" where
  "null_body_status st = (st \<in> {101, 103, 204, 205, 304})"

definition new_Response :: "body \<Rightarrow> string option \<Rightarrow> nat \<Rightarrow> string \<Rightarrow> header_list \<Rightarrow> js_error + response" where
  \<comment> \<open>\<^verbatim>\<open>new Response(body, {status, statusText, headers})\<close>; \<open>ctype\<close> is the content type the
      body brings with it, none for the body of another response\<close>
  "new_Response b ctype st stText hs =
     (if st < 200 \<or> 599 < st then Inl RangeError
      else if b \<noteq> BNull \<and> null_body_status st then Inl TypeError
      else Inr \<lparr> status = st, statusText = stText, body = b,
                 headers = (case ctype of
                              None \<Rightarrow> hs
                            | Some t \<Rightarrow> if b \<noteq> BNull \<and> headers_get hs ''content-type'' = None
                                        then hs @ [(''content-type'', t)] else hs),
                 bodyUsed = False \<rparr>)"

definition Response_json :: "jsval \<Rightarrow> js_error + response" where
  \<comment> \<open>\<^verbatim>\<open>Response.json(data)\<close>: raises when the data cannot be serialized\<close>
  "Response_json v =
     (if v = JUndefined \<or> (case v of JSymbol s \<Rightarrow> True | _ \<Rightarrow> False) \<or> \<not> json_serializable v
      then Inl TypeError
      else Inr \<lparr> status = 200, statusText = [], body = BJson v,
                 headers = [(''content-type'', ''application/json'')], bodyUsed = False \<rparr>)"

definition valid_response :: "response \<Rightarrow> bool" where
  \<comment> \<open>what every response built by \<^verbatim>\<open>new Response\<close> satisfies\<close>
  "valid_response r = (200 \<le> status r \<and> status r \<le> 599 \<and> (null_body_status (status r) \<longrightarrow> body r = BNull))"

definition body_stream :: "response \<Rightarrow> js_error + body" where
  \<comment> \<open>\<^verbatim>\<open>res.body\<close> handed to \<^verbatim>\<open>new Response\<close>: a stream that has been read or is locked
      cannot be used again; a response without a body hands over null\<close>
  "body_stream r = (if body r \<noteq> BNull \<and> bodyUsed r then Inl TypeError else Inr (body r))"

definition store_new :: "heap \<Rightarrow> js_error + response \<Rightarrow> js_error + (nat \<times> heap)" where
  \<comment> \<open>the object a successful constructor call creates\<close>
  "store_new h res = (case res of Inl e \<Rightarrow> Inl e | Inr r \<Rightarrow> Inr (obj_alloc h r))"

section \<open>\<^verbatim>\<open>cloneWithExtraHeaders\<close> and \<^verbatim>\<open>toMutableResponse\<close>\<close>

definition cloneWithExtraHeaders :: "heap \<Rightarrow> nat \<Rightarrow> (string \<times> string) list \<Rightarrow> js_error + (nat \<times> heap)" where
  "cloneWithExtraHeaders h res extra =
     (case obj_get h res of
        None \<Rightarrow> Inl TypeError
      | Some r \<Rightarrow>
          (let hs = foldl (\<lambda>acc kv. headers_set acc (fst kv) (snd kv)) (headers r) extra
           in case body_stream r of
                Inl e \<Rightarrow> Inl e
              | Inr b \<Rightarrow> store_new h (new_Response b None (status r) (statusText r) hs)))"

definition get_prop :: "(string \<times> jsval) list \<Rightarrow> string \<Rightarrow> jsval" where
  \<comment> \<open>\<^verbatim>\<open>res?.name\<close> on a plain object: a missing property reads as undefined\<close>
  "get_prop ps name = (case map_of ps name of None \<Rightarrow> JUndefined | Some v \<Rightarrow> v)"

definition response_shaped :: "(string \<times> jsval) list \<Rightarrow> bool" where
  \<comment> \<open>\<^verbatim>\<open>res?.status && res?.headers && ("body" in res || "bodyUsed" in res)\<close>\<close>
  "response_shaped ps =
     (js_truthy (get_prop ps ''status'') \<and> js_truthy (get_prop ps ''headers'')
      \<and> (''body'' \<in> fst ` set ps \<or> ''bodyUsed'' \<in> fst ` set ps))"

definition rebuild :: "(string \<times> jsval) list \<Rightarrow> js_error + response" where
  \<comment> \<open>\<^verbatim>\<open>new Response(res.body ?? null, { status: res.status, headers: new Headers(res.headers) })\<close>\<close>
  "rebuild ps =
     (case headers_of_jsval (get_prop ps ''headers'') of
        Inl e \<Rightarrow> Inl e
      | Inr hs \<Rightarrow>
          (case status_of_jsval (get_prop ps ''status'') of
             Inl e \<Rightarrow> Inl e
           | Inr st \<Rightarrow>
               (case body_of_jsval (get_prop ps ''body'') of
                  Inl e \<Rightarrow> Inl e
                | Inr (b, ctype) \<Rightarrow> new_Response b ctype st [] hs)))"

definition object_to_response :: "(string \<times> jsval) list \<Rightarrow> jsval \<Rightarrow> js_error + response" where
  \<comment> \<open>the \<^verbatim>\<open>try\<close> block and its \<^verbatim>\<open>catch\<close>: whatever the block raises, the handler
      serializes the same value again\<close>
  "object_to_response ps res =
     (case (if response_shaped ps then rebuild ps else Response_json res) of
        Inr out \<Rightarrow> Inr out
      | Inl e \<Rightarrow> Response_json res)"

definition toMutableResponse :: "heap \<Rightarrow> jsval \<Rightarrow> js_error + (nat \<times> heap)" where
  "toMutableResponse h res =
     (if res = JUndefined \<or> res = JNull then store_new h (new_Response BNull None 204 [] [])
      else case res of
        JResponse a \<Rightarrow>
          (case obj_get h a of
             None \<Rightarrow> Inl TypeError
           | Some r \<Rightarrow>
               (case body_stream r of
                  Inl e \<Rightarrow> Inl e
                | Inr b \<Rightarrow> store_new h (new_Response b None (status r) (statusText r) (headers r))))
      | JObject ps \<Rightarrow> store_new h (object_to_response ps res)
      | JArray xs \<Rightarrow> store_new h (object_to_response [] res)
      | _ \<Rightarrow>
          (case body_of_jsval res of
             Inl e \<Rightarrow> Inl e
           | Inr (b, ctype) \<Rightarrow> store_new h (new_Response b ctype 200 [] [])))"

definition text_response :: "string \<Rightarrow> response" where
  \<comment> \<open>what \<^verbatim>\<open>new Response(text)\<close> builds\<close>
  "text_response s = \<lparr> status = 200, statusText = [], body = BText s,
                       headers = [(''content-type'', ''text/plain;charset=UTF-8'')], bodyUsed = False \<rparr>"

definition used_response :: response where
  \<comment> \<open>a sample response whose body a handler has read (\<^verbatim>\<open>await res.text()\<close>)\<close>
  "used_response = \<lparr> status = 200, statusText = [], body = BText ''read'', headers = [], bodyUsed = True \<rparr>"

definition json_response :: "jsval \<Rightarrow> response" where
  "json_response v = \<lparr> status = 200, statusText = [], body = BJson v,
                       headers = [(''content-type'', ''application/json'')], bodyUsed = False \<rparr>"

section \<open>The materializer and the global wrapper\<close>

text \<open>
  Whatever runs downstream of a middleware (the host's \<^verbatim>\<open>next\<close>) is a function of the
  request's state: it settles to a value or to an error, and leaves a new state.
\<close>

type_synonym outcome = "js_error + jsval"

type_synonym downstream = "hono \<Rightarrow> outcome \<times> hono"

definition getSharedMutableResponse :: "downstream \<Rightarrow> hono \<Rightarrow> outcome \<times> hono" where
  "getSharedMutableResponse nxt c =
     (case mutable_response c of
        Some shared \<Rightarrow> (Inr (JResponse shared), c)
      | None \<Rightarrow>
          (case nxt c of
             (Inl e, c2) \<Rightarrow> (Inl e, c2)
           | (Inr dstream, c2) \<Rightarrow>
               (let downstreamResponse =
                      (case dstream of
                         JResponse a \<Rightarrow> dstream
                       | _ \<Rightarrow> (case c_res c2 of Some a \<Rightarrow> JResponse a | None \<Rightarrow> dstream))
                in case toMutableResponse (heap c2) downstreamResponse of
                     Inl e \<Rightarrow> (Inl e, c2)
                   | Inr (shared, h) \<Rightarrow>
                       (Inr (JResponse shared), c2\<lparr> heap := h, mutable_response := Some shared \<rparr>))))"

definition global_wrapper :: "string \<Rightarrow> downstream \<Rightarrow> hono \<Rightarrow> outcome \<times> hono" where
  \<comment> \<open>the middleware registered on \<^verbatim>\<open>/*\<close> by \<^verbatim>\<open>loadFunctions\<close>; \<open>rid\<close> is what \<^verbatim>\<open>randId()\<close>
      would return\<close>
  "global_wrapper rid nxt c =
     (let trace = (case trace_id c of None \<Rightarrow> rid | Some t \<Rightarrow> if t \<noteq> [] then t else rid);
          c1 = c\<lparr> trace_id := Some trace \<rparr>
      in case nxt c1 of
           (Inl e, c2) \<Rightarrow> (Inl e, c2)
         | (Inr res, c2) \<Rightarrow>
             (case (case mutable_response c2 of
                      Some shared \<Rightarrow> Inr (shared, heap c2)
                    | None \<Rightarrow> toMutableResponse (heap c2) res) of
                Inl e \<Rightarrow> (Inl e, c2)
              | Inr (shared, h3) \<Rightarrow>
                  (let c3 = hono_header ''X-Trace-Id'' trace (c2\<lparr> heap := h3 \<rparr>)
                   in case cloneWithExtraHeaders (heap c3) shared [(''X-Trace-Id'', trace)] of
                        Inl e \<Rightarrow> (Inl e, c3)
                      | Inr (finalRes, h4) \<Rightarrow> (Inr (JResponse finalRes), c3\<lparr> heap := h4 \<rparr>))))"

definition set_response_header :: "nat \<Rightarrow> string \<Rightarrow> string \<Rightarrow> hono \<Rightarrow> hono" where
  \<comment> \<open>what a chain link does with \<^verbatim>\<open>res.headers.set(name, value)\<close> on a response it holds\<close>
  "set_response_header a name v c =
     c\<lparr> heap := obj_update (heap c) a (\<lambda>r. r\<lparr> headers := headers_set (headers r) name v \<rparr>) \<rparr>"

definition text_downstream :: downstream where
  \<comment> \<open>a sample downstream pipeline: it resolves to a string and touches nothing\<close>
  "text_downstream c = (Inr (JStr ''hello''), c)"

definition stored_hono :: hono where
  \<comment> \<open>a sample request in progress: a trace id and a materialized response are in the store\<close>
  "stored_hono =
     \<lparr> trace_id = Some ''q7w8e9r0'', override_request = None, mutable_response = Some 0, c_res = None,
       heap = [\<lparr> status = 201, statusText = ''Created'', body = BText ''made'',
                 headers = [(''x-from-mw'', ''1''), (''x-trace-id'', ''stale'')], bodyUsed = False \<rparr>],
       next_req_id = 0 \<rparr>"

definition inner_link :: downstream where
  \<comment> \<open>a sample inner middleware, as the host runs it inside an outer one: its link retrieves
      the shared response, sets a header on it and leaves it as the host's response; the
      host's \<^verbatim>\<open>next()\<close> itself resolves to nothing\<close>
  "inner_link c =
     (case getSharedMutableResponse text_downstream c of
        (Inr (JResponse a), c1) \<Rightarrow>
          (Inr JUndefined, (set_response_header a ''X-From-MW'' ''1'' c1)\<lparr> c_res := Some a \<rparr>)
      | other \<Rightarrow> other)"

section \<open>The chain composer: \<^verbatim>\<open>composeCFChain\<close>\<close>

text \<open>
  A handler is user code. What it can do to a chain is written as a tree: finish with a
  value (\<^verbatim>\<open>undefined\<close> when it returns nothing), throw, await its continuation and go on
  with what the continuation settled to (a value, or an error it may catch), call its
  continuation without awaiting it and go on at once, change the request's shared state,
  or look at it. The handler receives the context; its continuation is the same
  \<^verbatim>\<open>stepNext\<close> whether it takes it as second parameter or as \<^verbatim>\<open>ctx.next\<close>. A handler that
  returns the promise of its continuation (\<^verbatim>\<open>return next()\<close>) has nothing left to do and
  settles as that promise does, which is \<^verbatim>\<open>CallNext\<close> followed by a return or a throw.
\<close>

record cfctx =
  cf_request :: request
  cf_params :: "(string \<times> jsval) list"

datatype hprog =
    Return jsval
  | Throw js_error
  | CallNext "request option" "js_error + jsval \<Rightarrow> hprog"   \<comment> \<open>\<^verbatim>\<open>await next(reqOverride)\<close>\<close>
  | FireNext "request option" hprog                           \<comment> \<open>\<^verbatim>\<open>next(reqOverride)\<close>, not awaited\<close>
  | Effect "hono \<Rightarrow> hono" hprog
  | Observe "hono \<Rightarrow> hprog"

record handler =
  arity :: nat                    \<comment> \<open>\<^verbatim>\<open>fn.length\<close>\<close>
  run_body :: "cfctx \<Rightarrow> hprog"

text \<open>The lines the chain writes with \<^verbatim>\<open>dbg\<close>, kept as the record of what ran.\<close>

datatype event =
    EnterHandler nat nat     \<comment> \<open>\<^verbatim>\<open>enter handler[i]\<close>, with the arity\<close>
  | ChainFinished            \<comment> \<open>\<^verbatim>\<open>chain finished -> finalNext()\<close>\<close>
  | SetOverride nat          \<comment> \<open>\<^verbatim>\<open>handler[i] set override request\<close>\<close>
  | HandlerNext nat          \<comment> \<open>\<^verbatim>\<open>handler[i] -> next()\<close>\<close>
  | ReturnedResponse nat     \<comment> \<open>\<^verbatim>\<open>handler[i] returned Response\<close>\<close>
  | ReturnedValue nat        \<comment> \<open>\<^verbatim>\<open>handler[i] returned value\<close>\<close>
  | Advance nat              \<comment> \<open>\<^verbatim>\<open>handler[i] neither returned nor called next -> advance\<close>\<close>
  | CompletedAfterNext nat   \<comment> \<open>\<^verbatim>\<open>handler[i] completed after next()\<close>\<close>

text \<open>
  \<^verbatim>\<open>runAt\<close> and \<^verbatim>\<open>stepNext\<close> are \<^verbatim>\<open>async\<close>: a call runs at once up to its first
  \<^verbatim>\<open>await\<close> and hands back a promise; what is left of it runs later. A caller that
  awaits the promise goes on only when the call has run to its end. A caller that does
  not await goes on at once, and what is left of the call stays behind: it is kept in
  the state as a suspended computation, the innermost point where it stopped and the
  handlers that wait above it. When such a computation is taken up again is the
  scheduler's matter and is left open; \<open>resume\<close> below runs one from a given state.
\<close>

datatype call_mode = Awaited | Detached

datatype frame = Frame nat "js_error + jsval \<Rightarrow> hprog"
  \<comment> \<open>handler \<open>j\<close> stopped at \<^verbatim>\<open>await next()\<close>, with what it does next\<close>

datatype pending_point =
    HandlerSettled nat "js_error + jsval" bool
      \<comment> \<open>\<^verbatim>\<open>runAt(j)\<close> stopped at \<^verbatim>\<open>await fn(...)\<close>: handler \<open>j\<close> has settled, with its flag
          \<^verbatim>\<open>called\<close>, and its result is yet to be looked at\<close>
  | CallSettled "js_error + jsval"
      \<comment> \<open>the call has its result: the protocol error, or what \<^verbatim>\<open>finalNext\<close> gave\<close>

datatype suspended = Susp pending_point "frame list"   \<comment> \<open>the frames innermost first\<close>

datatype hstop =
    Settled "js_error + jsval" bool
  | Waiting suspended "js_error + jsval \<Rightarrow> hprog"

record run_state =
  idx :: int                 \<comment> \<open>the variable \<^verbatim>\<open>idx\<close> of one \<^verbatim>\<open>run\<close>\<close>
  events :: "event list"
  pending :: "suspended list"  \<comment> \<open>what is left of the calls that were not awaited\<close>
  host :: hono

definition log_event :: "event \<Rightarrow> run_state \<Rightarrow> run_state" where
  "log_event ev st = st\<lparr> events := events st @ [ev] \<rparr>"

primrec exec :: "hprog \<Rightarrow> (call_mode \<Rightarrow> request option \<Rightarrow> run_state \<Rightarrow> outcome \<times> run_state) \<Rightarrow> bool
                  \<Rightarrow> run_state \<Rightarrow> (outcome \<times> bool) \<times> run_state" where
  \<comment> \<open>one handler run to its end against its continuation; the flag is the variable
      \<^verbatim>\<open>called\<close>. A call that is not awaited gives the handler a promise, which it drops.\<close>
  "exec (Return v) nxt called st = ((Inr v, called), st)"
| "exec (Throw e) nxt called st = ((Inl e, called), st)"
| "exec (CallNext reqOverride k) nxt called st =
     (case nxt Awaited reqOverride st of (settled, st') \<Rightarrow> exec (k settled) nxt True st')"
| "exec (FireNext reqOverride p) nxt called st =
     (case nxt Detached reqOverride st of (promise, st') \<Rightarrow> exec p nxt True st')"
| "exec (Effect f p) nxt called st = exec p nxt called (st\<lparr> host := f (host st) \<rparr>)"
| "exec (Observe k) nxt called st = exec (k (host st)) nxt called st"

definition store_override :: "cfctx \<Rightarrow> nat \<Rightarrow> request option \<Rightarrow> run_state \<Rightarrow> run_state" where
  \<comment> \<open>the \<^verbatim>\<open>if (reqOverride && reqOverride !== ctx.request)\<close> of \<^verbatim>\<open>stepNext\<close>: a copy of the
      request, a new object, becomes the pending override\<close>
  "store_override ctx i reqOverride st =
     (case reqOverride of
        None \<Rightarrow> st
      | Some rq \<Rightarrow>
          if req_id rq \<noteq> req_id (cf_request ctx)
          then log_event (SetOverride i)
                 (st\<lparr> host := (host st)\<lparr> override_request := Some (rq\<lparr> req_id := next_req_id (host st) \<rparr>),
                                        next_req_id := Suc (next_req_id (host st)) \<rparr> \<rparr>)
          else st)"

definition is_response :: "jsval \<Rightarrow> bool" where
  \<comment> \<open>\<^verbatim>\<open>out instanceof Response\<close>\<close>
  "is_response v = (case v of JResponse a \<Rightarrow> True | _ \<Rightarrow> False)"

definition leave_pending :: "suspended \<Rightarrow> run_state \<Rightarrow> run_state" where
  \<comment> \<open>what is left of a call that was not awaited stays in the state, unless the call has
      its result already and nothing waits for it\<close>
  "leave_pending sp st =
     (case sp of
        Susp (CallSettled res) [] \<Rightarrow> st
      | _ \<Rightarrow> st\<lparr> pending := pending st @ [sp] \<rparr>)"

primrec start_exec :: "hprog \<Rightarrow> (request option \<Rightarrow> run_state \<Rightarrow> suspended \<times> run_state) \<Rightarrow> bool
                        \<Rightarrow> run_state \<Rightarrow> hstop \<times> run_state" where
  \<comment> \<open>a handler run up to its first \<^verbatim>\<open>await\<close>: it settles before, or stops waiting for the
      call it has just started\<close>
  "start_exec (Return v) snxt called st = (Settled (Inr v) called, st)"
| "start_exec (Throw e) snxt called st = (Settled (Inl e) called, st)"
| "start_exec (CallNext reqOverride k) snxt called st =
     (case snxt reqOverride st of (sp, st') \<Rightarrow> (Waiting sp k, st'))"
| "start_exec (FireNext reqOverride p) snxt called st =
     (case snxt reqOverride st of (sp, st') \<Rightarrow> start_exec p snxt True (leave_pending sp st'))"
| "start_exec (Effect f p) snxt called st = start_exec p snxt called (st\<lparr> host := f (host st) \<rparr>)"
| "start_exec (Observe k) snxt called st = start_exec (k (host st)) snxt called st"

function start_runAt :: "handler list \<Rightarrow> downstream option \<Rightarrow> cfctx \<Rightarrow> nat \<Rightarrow> run_state
                          \<Rightarrow> suspended \<times> run_state" where
  \<comment> \<open>\<^verbatim>\<open>runAt(i, ctx)\<close> up to its first \<^verbatim>\<open>await\<close>. \<^verbatim>\<open>finalNext\<close> is taken as doing its work
      when it is invoked.\<close>
  "start_runAt chain finalNext ctx i st =
     (if int i \<le> idx st then (Susp (CallSettled (Inl ChainProtocolError)) [], st)
      else if length chain \<le> i then
        (case finalNext of
           None \<Rightarrow> (Susp (CallSettled (Inr JUndefined)) [], log_event ChainFinished (st\<lparr> idx := int i \<rparr>))
         | Some fin \<Rightarrow>
             (case fin (host st) of
                (settled, c) \<Rightarrow>
                  (Susp (CallSettled settled) [], (log_event ChainFinished (st\<lparr> idx := int i \<rparr>))\<lparr> host := c \<rparr>)))
      else
        (case start_exec (run_body (chain ! i) ctx)
                (\<lambda>reqOverride s.
                    start_runAt chain finalNext ctx (Suc i)
                      (log_event (HandlerNext i) (store_override ctx i reqOverride s)))
                False
                (log_event (EnterHandler i (arity (chain ! i))) (st\<lparr> idx := int i \<rparr>)) of
           (Settled settled called, st') \<Rightarrow> (Susp (HandlerSettled i settled called) [], st')
         | (Waiting (Susp point frames) k, st') \<Rightarrow> (Susp point (frames @ [Frame i k]), st')))"
  by pat_completeness auto
termination
  by (relation "measure (\<lambda>(chain, finalNext, ctx, i, st). Suc (length chain) - i)") auto

declare start_runAt.simps [simp del]

function runAt :: "handler list \<Rightarrow> downstream option \<Rightarrow> cfctx \<Rightarrow> nat \<Rightarrow> run_state
                    \<Rightarrow> outcome \<times> run_state" where
  \<comment> \<open>\<^verbatim>\<open>runAt(i, ctx)\<close> run to its end, as its caller sees it that awaits it\<close>
  "runAt chain finalNext ctx i st =
     (if int i \<le> idx st then (Inl ChainProtocolError, st)
      else if length chain \<le> i then
        (case finalNext of
           None \<Rightarrow> (Inr JUndefined, log_event ChainFinished (st\<lparr> idx := int i \<rparr>))
         | Some fin \<Rightarrow>
             (case fin (host st) of
                (settled, c) \<Rightarrow> (settled, (log_event ChainFinished (st\<lparr> idx := int i \<rparr>))\<lparr> host := c \<rparr>)))
      else
        (case exec (run_body (chain ! i) ctx)
                (\<lambda>mode reqOverride s.
                    case mode of
                      Awaited \<Rightarrow>
                        runAt chain finalNext ctx (Suc i)
                          (log_event (HandlerNext i) (store_override ctx i reqOverride s))
                    | Detached \<Rightarrow>
                        (case start_runAt chain finalNext ctx (Suc i)
                                (log_event (HandlerNext i) (store_override ctx i reqOverride s)) of
                           (sp, s') \<Rightarrow> (Inr JUndefined, leave_pending sp s')))
                False
                (log_event (EnterHandler i (arity (chain ! i))) (st\<lparr> idx := int i \<rparr>)) of
           ((Inl e, called), st') \<Rightarrow> (Inl e, st')
         | ((Inr out, called), st') \<Rightarrow>
             if is_response out then (Inr out, log_event (ReturnedResponse i) st')
             else if out \<noteq> JUndefined then (Inr out, log_event (ReturnedValue i) st')
             else if \<not> called then runAt chain finalNext ctx (Suc i) (log_event (Advance i) st')
             else (Inr out, log_event (CompletedAfterNext i) st')))"
  by pat_completeness auto
termination
  by (relation "measure (\<lambda>(chain, finalNext, ctx, i, st). Suc (length chain) - i)") auto

declare runAt.simps [simp del]

definition stepNext :: "handler list \<Rightarrow> downstream option \<Rightarrow> cfctx \<Rightarrow> nat \<Rightarrow> call_mode \<Rightarrow> request option
                         \<Rightarrow> run_state \<Rightarrow> outcome \<times> run_state" where
  \<comment> \<open>the continuation handed to handler \<open>i\<close>, as \<^verbatim>\<open>runAt\<close> builds it: awaited, it gives what
      \<^verbatim>\<open>runAt(i + 1)\<close> settles to; not awaited, it gives a promise (nothing the handler can
      read) and leaves what is left of \<^verbatim>\<open>runAt(i + 1)\<close> pending\<close>
  "stepNext chain finalNext ctx i mode reqOverride s =
     (case mode of
        Awaited \<Rightarrow>
          runAt chain finalNext ctx (Suc i) (log_event (HandlerNext i) (store_override ctx i reqOverride s))
      | Detached \<Rightarrow>
          (case start_runAt chain finalNext ctx (Suc i)
                  (log_event (HandlerNext i) (store_override ctx i reqOverride s)) of
             (sp, s') \<Rightarrow> (Inr JUndefined, leave_pending sp s')))"

definition handle_result :: "handler list \<Rightarrow> downstream option \<Rightarrow> cfctx \<Rightarrow> nat \<Rightarrow> outcome \<Rightarrow> bool
                              \<Rightarrow> run_state \<Rightarrow> outcome \<times> run_state" where
  \<comment> \<open>what \<^verbatim>\<open>runAt(i)\<close> does once handler \<open>i\<close> has settled\<close>
  "handle_result chain finalNext ctx i settled called st' =
     (case settled of
        Inl e \<Rightarrow> (Inl e, st')
      | Inr out \<Rightarrow>
          if is_response out then (Inr out, log_event (ReturnedResponse i) st')
          else if out \<noteq> JUndefined then (Inr out, log_event (ReturnedValue i) st')
          else if \<not> called then runAt chain finalNext ctx (Suc i) (log_event (Advance i) st')
          else (Inr out, log_event (CompletedAfterNext i) st'))"

fun resume_frames :: "handler list \<Rightarrow> downstream option \<Rightarrow> cfctx \<Rightarrow> frame list \<Rightarrow> outcome \<Rightarrow> run_state
                       \<Rightarrow> outcome \<times> run_state" where
  \<comment> \<open>the waiting handlers taken up one after the other, each with what its call settled to\<close>
  "resume_frames chain finalNext ctx [] settled st = (settled, st)"
| "resume_frames chain finalNext ctx (Frame j k # frames) settled st =
     (case exec (k settled) (stepNext chain finalNext ctx j) True st of
        ((res, called), st') \<Rightarrow>
          (case handle_result chain finalNext ctx j res called st' of
             (res', st'') \<Rightarrow> resume_frames chain finalNext ctx frames res' st''))"

definition resume :: "handler list \<Rightarrow> downstream option \<Rightarrow> cfctx \<Rightarrow> suspended \<Rightarrow> run_state
                       \<Rightarrow> outcome \<times> run_state" where
  \<comment> \<open>a suspended computation run to its end\<close>
  "resume chain finalNext ctx sp st =
     (case sp of
        Susp point frames \<Rightarrow>
          (case (case point of
                   CallSettled settled \<Rightarrow> (settled, st)
                 | HandlerSettled j settled called \<Rightarrow> handle_result chain finalNext ctx j settled called st) of
             (res, st') \<Rightarrow> resume_frames chain finalNext ctx frames res st'))"

definition waiting_at :: "suspended \<Rightarrow> pending_point \<times> nat" where
  \<comment> \<open>where a suspended computation stopped, and how many handlers wait above it\<close>
  "waiting_at sp = (case sp of Susp point frames \<Rightarrow> (point, length frames))"

definition run :: "handler list \<Rightarrow> cfctx \<Rightarrow> downstream option \<Rightarrow> hono \<Rightarrow> outcome \<times> run_state" where
  \<comment> \<open>\<^verbatim>\<open>run(rootCtx, finalNext)\<close>: \<^verbatim>\<open>idx\<close> starts at -1\<close>
  "run chain rootCtx finalNext c =
     runAt chain finalNext rootCtx 0 \<lparr> idx = - 1, events = [], pending = [], host = c \<rparr>"

datatype export_entry = Fn handler | Other jsval

datatype exported = Single export_entry | Many "export_entry list"

definition as_fns :: "exported \<Rightarrow> export_entry list" where
  \<comment> \<open>\<^verbatim>\<open>Array.isArray(exported) ? exported : [exported]\<close>; an array value holds no function\<close>
  "as_fns ex =
     (case ex of
        Many es \<Rightarrow> es
      | Single (Other (JArray xs)) \<Rightarrow> map Other xs
      | Single e \<Rightarrow> [e])"

definition is_callable :: "export_entry \<Rightarrow> bool" where
  \<comment> \<open>\<^verbatim>\<open>typeof fn === "function"\<close>\<close>
  "is_callable e = (case e of Fn h \<Rightarrow> True | Other v \<Rightarrow> False)"

fun callables :: "export_entry list \<Rightarrow> handler list" where
  \<comment> \<open>\<^verbatim>\<open>fns.filter((fn) => typeof fn === "function")\<close>\<close>
  "callables [] = []"
| "callables (Fn h # es) = h # callables es"
| "callables (Other v # es) = callables es"

definition composeCFChain :: "exported \<Rightarrow> cfctx \<Rightarrow> downstream option \<Rightarrow> hono \<Rightarrow> outcome \<times> run_state" where
  "composeCFChain ex = run (callables (as_fns ex))"

definition is_link :: "event \<Rightarrow> bool" where
  \<comment> \<open>the events that mark a link of the chain starting to execute: a handler entered, or
      the end of the chain reached (where \<^verbatim>\<open>finalNext\<close> is invoked)\<close>
  "is_link ev = (case ev of EnterHandler i a \<Rightarrow> True | ChainFinished \<Rightarrow> True | _ \<Rightarrow> False)"

definition link_events :: "event list \<Rightarrow> event list" where
  "link_events evs = filter is_link evs"

primrec silent :: "hprog \<Rightarrow> bool" where
  \<comment> \<open>the handler returns no value and never calls its continuation\<close>
  "silent (Return v) = (v = JUndefined)"
| "silent (Throw e) = False"
| "silent (CallNext reqOverride k) = False"
| "silent (FireNext reqOverride p) = False"
| "silent (Effect f p) = silent p"
| "silent (Observe k) = (\<forall>c. silent (k c))"

primrec after_silent :: "hprog \<Rightarrow> hono \<Rightarrow> hono" where
  \<comment> \<open>the shared state a handler leaves that never calls its continuation\<close>
  "after_silent (Return v) c = c"
| "after_silent (Throw e) c = c"
| "after_silent (CallNext reqOverride k) c = c"
| "after_silent (FireNext reqOverride p) c = c"
| "after_silent (Effect f p) c = after_silent p (f c)"
| "after_silent (Observe k) c = after_silent (k c) c"

primrec awaits_all :: "hprog \<Rightarrow> bool" where
  \<comment> \<open>every call of the continuation is awaited\<close>
  "awaits_all (Return v) = True"
| "awaits_all (Throw e) = True"
| "awaits_all (CallNext reqOverride k) = (\<forall>settled. awaits_all (k settled))"
| "awaits_all (FireNext reqOverride p) = False"
| "awaits_all (Effect f p) = awaits_all p"
| "awaits_all (Observe k) = (\<forall>c. awaits_all (k c))"

definition advance_events :: "handler list \<Rightarrow> nat \<Rightarrow> event list" where
  \<comment> \<open>handlers \<open>i\<close>, \<open>i + 1\<close>, ... each entered and advanced past, in order\<close>
  "advance_events chain i =
     concat (map (\<lambda>j. [EnterHandler j (arity (chain ! j)), Advance j]) [i..<length chain])"

definition sample_ctx :: cfctx where
  "sample_ctx = \<lparr> cf_request = \<lparr> req_id = 0, req_method = ''GET'', req_url = ''https://example.test/api/x'' \<rparr>,
                  cf_params = [] \<rparr>"

definition pass_through :: handler where
  \<comment> \<open>\<^verbatim>\<open>async (ctx, next) => { await next() }\<close>\<close>
  "pass_through =
     \<lparr> arity = 2,
       run_body = (\<lambda>ctx. CallNext None (\<lambda>settled. case settled of Inl e \<Rightarrow> Throw e | Inr v \<Rightarrow> Return JUndefined)) \<rparr>"

definition quiet :: handler where
  \<comment> \<open>\<^verbatim>\<open>async (ctx) => { ctx.locals.set("__trace_id__", "seen") }\<close>\<close>
  "quiet = \<lparr> arity = 1, run_body = (\<lambda>ctx. Effect (\<lambda>c. c\<lparr> trace_id := Some ''seen'' \<rparr>) (Return JUndefined)) \<rparr>"

definition calls_twice :: handler where
  \<comment> \<open>\<^verbatim>\<open>async (ctx, next) => { await next(); return await next() }\<close>\<close>
  "calls_twice =
     \<lparr> arity = 2,
       run_body = (\<lambda>ctx. CallNext None (\<lambda>first.
                     CallNext None (\<lambda>second. case second of Inl e \<Rightarrow> Throw e | Inr v \<Rightarrow> Return v))) \<rparr>"

definition fires_then_calls :: handler where
  \<comment> \<open>\<^verbatim>\<open>async (ctx, next) => { next(); return next() }\<close>\<close>
  "fires_then_calls =
     \<lparr> arity = 2,
       run_body = (\<lambda>ctx. FireNext None
                     (CallNext None (\<lambda>second. case second of Inl e \<Rightarrow> Throw e | Inr v \<Rightarrow> Return v))) \<rparr>"

definition tags :: "string \<Rightarrow> handler" where
  \<comment> \<open>\<^verbatim>\<open>async (ctx) => { ctx.locals.set("__trace_id__", (ctx.locals.get("__trace_id__") || "") + s) }\<close>\<close>
  "tags s =
     \<lparr> arity = 1,
       run_body = (\<lambda>ctx. Effect (\<lambda>c. c\<lparr> trace_id := Some ((case trace_id c of None \<Rightarrow> [] | Some t \<Rightarrow> t) @ s) \<rparr>)
                          (Return JUndefined)) \<rparr>"

definition event_ok :: "nat \<Rightarrow> int \<Rightarrow> event \<Rightarrow> bool" where
  \<comment> \<open>a recorded link lies at or below the highest index reached\<close>
  "event_ok n k ev =
     (case ev of
        EnterHandler j a \<Rightarrow> int j \<le> k
      | ChainFinished \<Rightarrow> int n \<le> k
      | _ \<Rightarrow> True)"

definition links_once :: "nat \<Rightarrow> run_state \<Rightarrow> bool" where
  \<comment> \<open>the invariant of a run over a chain of \<open>n\<close> handlers: no link has executed twice, and
      \<^verbatim>\<open>idx\<close> bounds the links that have executed\<close>
  "links_once n st =
     (distinct (link_events (events st)) \<and> idx st \<le> int n \<and> list_all (event_ok n (idx st)) (events st))"

fun frame_in_range :: "nat \<Rightarrow> frame \<Rightarrow> bool" where
  "frame_in_range n (Frame j k) = (j < n)"

definition in_range :: "nat \<Rightarrow> suspended \<Rightarrow> bool" where
  \<comment> \<open>a suspended computation of a chain of \<open>n\<close> handlers names handlers of the chain only\<close>
  "in_range n sp =
     (case sp of
        Susp point frames \<Rightarrow>
          (case point of HandlerSettled j settled called \<Rightarrow> j < n | CallSettled settled \<Rightarrow> True)
          \<and> list_all (frame_in_range n) frames)"

definition pending_ok :: "nat \<Rightarrow> run_state \<Rightarrow> bool" where
  "pending_ok n st = list_all (in_range n) (pending st)"

section \<open>Registration: the first pass of \<^verbatim>\<open>loadFunctions\<close>\<close>

text \<open>
  The modules collected by \<^verbatim>\<open>loadFunctions\<close>, and the first pass over them. A registered
  middleware handler is \<^verbatim>\<open>makeMiddlewareHandler(exported, arrayParams)\<close>; the registration
  keeps the two arguments. The host router is the list of its \<^verbatim>\<open>app.use\<close> calls, in the
  order they are made.
\<close>

record module_handler =
  h_method :: string
  h_exported :: exported

record entry =
  filepath :: string
  entry_routes :: "route list"
  entry_isMiddleware :: bool
  handlers :: "module_handler list"

definition make_entry :: "string \<Rightarrow> string \<Rightarrow> module_handler list \<Rightarrow> entry" where
  \<comment> \<open>\<^verbatim>\<open>all.push({ filepath, routes, isMiddleware, handlers })\<close> after
      \<^verbatim>\<open>filepathToRoutes(filepath, baseDir)\<close>\<close>
  "make_entry baseDir fp hs =
     \<lparr> filepath = fp,
       entry_routes = routes (filepathToRoutes fp baseDir),
       entry_isMiddleware = isMiddleware (filepathToRoutes fp baseDir),
       handlers = hs \<rparr>"

record mw_item =
  mwRoute :: string
  depth :: nat
  mw_exported :: exported
  mw_arrayParams :: "string list"
  mw_file :: string

definition mw_route_of :: "string \<Rightarrow> string" where
  \<comment> \<open>\<^verbatim>\<open>path === "/" ? "/*" : `${path}/*`\<close>\<close>
  "mw_route_of p = (if p = ''/'' then ''/*'' else p @ ''/*'')"

definition mw_items_of :: "entry \<Rightarrow> mw_item list" where
  \<comment> \<open>what one entry pushes on \<^verbatim>\<open>mwAll\<close>: one item per route, when the entry is a middleware
      with a handler for ALL\<close>
  "mw_items_of e =
     (if \<not> entry_isMiddleware e then []
      else concat (map (\<lambda>r.
             case find (\<lambda>h. h_method h = ''ALL'') (handlers e) of
               None \<Rightarrow> []
             | Some allH \<Rightarrow>
                 [\<lparr> mwRoute = mw_route_of (path r),
                    depth = length (split_on CHR ''/'' (mw_route_of (path r))),
                    mw_exported = h_exported allH,
                    mw_arrayParams = arrayParams r,
                    mw_file = filepath e \<rparr>]) (entry_routes e)))"

definition collect_mwAll :: "entry list \<Rightarrow> mw_item list" where
  "collect_mwAll entries = concat (map mw_items_of entries)"

definition sorted_mwAll :: "entry list \<Rightarrow> mw_item list" where
  \<comment> \<open>\<^verbatim>\<open>mwAll.sort((a, b) => a.depth - b.depth)\<close>: ascending, and stable\<close>
  "sorted_mwAll entries = sort_key depth (collect_mwAll entries)"

datatype registration = AppUse string exported "string list"

definition pass1 :: "entry list \<Rightarrow> registration list \<Rightarrow> registration list" where
  \<comment> \<open>\<^verbatim>\<open>for (const m of mwAll) app.use(m.mwRoute, m.handler)\<close>\<close>
  "pass1 entries app =
     app @ map (\<lambda>m. AppUse (mwRoute m) (mw_exported m) (mw_arrayParams m)) (sorted_mwAll entries)"

definition use_route :: "registration \<Rightarrow> string" where
  "use_route reg = (case reg of AppUse r ex ps \<Rightarrow> r)"

definition sample_modules :: "entry list" where
  \<comment> \<open>a middleware for \<^verbatim>\<open>/api\<close> discovered before the middleware of the root\<close>
  "sample_modules =
     [make_entry ''../functions'' ''../functions/api/_middleware.ts''
        [\<lparr> h_method = ''ALL'', h_exported = Single (Fn pass_through) \<rparr>],
      make_entry ''../functions'' ''../functions/_middleware.ts''
        [\<lparr> h_method = ''ALL'', h_exported = Single (Fn pass_through) \<rparr>],
      make_entry ''../functions'' ''../functions/api/hello.ts''
        [\<lparr> h_method = ''GET'', h_exported = Single (Fn quiet) \<rparr>]]"

section \<open>Properties of the path compiler\<close>

text \<open>
  C2, as the code has it. Compiling \<^verbatim>\<open>docs/[[section]]\<close> yields exactly three
  routes, in this order: \<^verbatim>\<open>/docs\<close>, \<^verbatim>\<open>/docs/:section\<close> and the augmented
  \<^verbatim>\<open>/docs/:section{.+}\<close>. The name \<^verbatim>\<open>section\<close> is an array parameter of both the
  plain \<^verbatim>\<open>/docs/:section\<close> member and the augmented member (the optional-tail test
  accepts either ending), and of no other member; the file is not a middleware.
\<close>

theorem c2_docs_optional_section_routes:
  "filepathToRoutes ''docs/[[section]]'' ''../functions'' =
     \<lparr> routes = [\<lparr> path = ''/docs'', arrayParams = [] \<rparr>,
                 \<lparr> path = ''/docs/:section'', arrayParams = [''section''] \<rparr>,
                 \<lparr> path = ''/docs/:section{.+}'', arrayParams = [''section''] \<rparr>],
       isMiddleware = False \<rparr>"
  by code_simp

text \<open>
  C2 as the specification words it fails: \<^verbatim>\<open>section\<close> is not confined to the augmented
  member, the plain \<^verbatim>\<open>/docs/:section\<close> route carries it too.
\<close>

theorem c2_section_on_plain_member:
  "path (routes (filepathToRoutes ''docs/[[section]]'' ''../functions'') ! 1) = ''/docs/:section''
   \<and> ''section'' \<in> set (arrayParams (routes (filepathToRoutes ''docs/[[section]]'' ''../functions'') ! 1))"
  by code_simp

section \<open>Header collections and \<^verbatim>\<open>ensureVaryOrigin\<close>\<close>

lemma replace_first_get:
  "k \<in> fst ` set hs \<Longrightarrow> filter (\<lambda>kv. fst kv = k) (replace_first k v hs) = [(k, v)]"
  by (induction hs) (auto simp: filter_empty_conv)

lemma replace_first_other:
  "k' \<noteq> k \<Longrightarrow> filter (\<lambda>kv. fst kv = k') (replace_first k v hs) = filter (\<lambda>kv. fst kv = k') hs"
proof (induction hs)
  case Nil
  then show ?case by simp
next
  case (Cons kv hs)
  have "filter (\<lambda>kv. fst kv = k') (filter (\<lambda>e. fst e \<noteq> k) hs) = filter (\<lambda>kv. fst kv = k') hs"
    using Cons.prems by (induction hs) auto
  with Cons show ?case by auto
qed

lemma filter_absent: "k \<notin> fst ` set hs \<Longrightarrow> filter (\<lambda>kv. fst kv = k) hs = []"
  by (induction hs) auto

lemma headers_get_set_same: "headers_get (headers_set hs name v) name = Some v"
  by (simp add: headers_get_def headers_set_def replace_first_get filter_absent)

lemma headers_get_set_other:
  "to_lower name' \<noteq> to_lower name \<Longrightarrow> headers_get (headers_set hs name v) name' = headers_get hs name'"
  by (simp add: headers_get_def headers_set_def replace_first_other)

lemma res_header_hono_header:
  "wf_hono c \<Longrightarrow> res_header (hono_header name v c) name = Some v"
  by (auto simp: res_header_def hono_header_def wf_hono_def obj_get_def obj_update_def obj_alloc_def
      headers_get_set_same split: option.splits)

lemma split_on_nonempty: "split_on d s \<noteq> []"
  by (induction s) (auto split: list.splits)

lemma split_on_append: "split_on d (s @ d # t) = split_on d s @ split_on d t"
proof (induction s)
  case Nil
  then show ?case by simp
next
  case (Cons c s)
  then show ?case
    using split_on_nonempty [of d s] by (auto split: list.splits)
qed

lemma vary_tokens_append_origin: "vary_tokens (prev @ '', Origin'') = vary_tokens prev @ [''origin'']"
proof -
  have "split_on CHR '','' (prev @ CHR '','' # '' Origin'') = split_on CHR '','' prev @ split_on CHR '','' '' Origin''"
    by (rule split_on_append)
  moreover have "map (\<lambda>s. to_lower (trim s)) (split_on CHR '','' '' Origin'') = [''origin'']"
    by code_simp
  ultimately show ?thesis
    by (simp add: vary_tokens_def)
qed

text \<open>
  C8, as the code has it. With no \<^verbatim>\<open>Vary\<close> header, or with an empty one,
  \<^verbatim>\<open>ensureVaryOrigin\<close> sets \<^verbatim>\<open>Vary\<close> to \<^verbatim>\<open>Origin\<close>. With a non-empty value that has no
  \<^verbatim>\<open>origin\<close> token (compared trimmed and in lower case) it sets the old value followed by
  \<^verbatim>\<open>, Origin\<close>, so that the old tokens stay, in order, and \<^verbatim>\<open>origin\<close> comes last. With
  an \<^verbatim>\<open>origin\<close> token present the context is left as it is.
\<close>

theorem c8_ensureVaryOrigin_additive:
  assumes wf: "wf_hono c"
  shows "(res_header c ''Vary'' = None \<or> res_header c ''Vary'' = Some [] \<longrightarrow>
            res_header (ensureVaryOrigin c) ''Vary'' = Some ''Origin'')
       \<and> (\<forall>prev. res_header c ''Vary'' = Some prev \<and> prev \<noteq> [] \<and> ''origin'' \<notin> set (vary_tokens prev) \<longrightarrow>
            res_header (ensureVaryOrigin c) ''Vary'' = Some (prev @ '', Origin'')
          \<and> vary_tokens (prev @ '', Origin'') = vary_tokens prev @ [''origin''])
       \<and> (\<forall>prev. res_header c ''Vary'' = Some prev \<and> ''origin'' \<in> set (vary_tokens prev) \<longrightarrow>
            ensureVaryOrigin c = c)"
proof (intro conjI allI impI)
  assume "res_header c ''Vary'' = None \<or> res_header c ''Vary'' = Some []"
  then show "res_header (ensureVaryOrigin c) ''Vary'' = Some ''Origin''"
    using res_header_hono_header [OF wf] by (auto simp: ensureVaryOrigin_def)
next
  fix prev
  assume "res_header c ''Vary'' = Some prev \<and> prev \<noteq> [] \<and> ''origin'' \<notin> set (vary_tokens prev)"
  then show "res_header (ensureVaryOrigin c) ''Vary'' = Some (prev @ '', Origin'')"
    using res_header_hono_header [OF wf] by (simp add: ensureVaryOrigin_def)
next
  fix prev
  show "vary_tokens (prev @ '', Origin'') = vary_tokens prev @ [''origin'']"
    by (rule vary_tokens_append_origin)
next
  fix prev
  assume p: "res_header c ''Vary'' = Some prev \<and> ''origin'' \<in> set (vary_tokens prev)"
  have "vary_tokens [] = [[]]"
    by code_simp
  with p have "prev \<noteq> []"
    by auto
  with p show "ensureVaryOrigin c = c"
    by (simp add: ensureVaryOrigin_def)
qed

theorem c8_ensureVaryOrigin_additive_witness:
  "wf_hono (hono_header ''Vary'' ''Accept-Encoding'' fresh_hono)
   \<and> res_header (ensureVaryOrigin (hono_header ''Vary'' ''Accept-Encoding'' fresh_hono)) ''Vary''
       = Some ''Accept-Encoding, Origin''
   \<and> vary_tokens ''Accept-Encoding, Origin'' = [''accept-encoding'', ''origin'']"
proof -
  let ?c = "hono_header ''Vary'' ''Accept-Encoding'' fresh_hono"
  have wf: "wf_hono ?c"
    by code_simp
  have pre: "res_header ?c ''Vary'' = Some ''Accept-Encoding'' \<and> ''Accept-Encoding'' \<noteq> []
             \<and> ''origin'' \<notin> set (vary_tokens ''Accept-Encoding'')"
    by code_simp
  have tok: "vary_tokens ''Accept-Encoding'' = [''accept-encoding'']"
    by code_simp
  from c8_ensureVaryOrigin_additive [OF wf] pre tok show ?thesis
    using wf by auto
qed

text \<open>
  C8 as the specification words it fails for a \<^verbatim>\<open>Vary\<close> header that exists with an empty
  value: the falsy test \<^verbatim>\<open>!prev\<close> takes the first branch and the result is \<^verbatim>\<open>Origin\<close>,
  not the old value with \<^verbatim>\<open>, Origin\<close> appended.
\<close>

theorem c8_empty_vary_not_appended:
  "wf_hono (hono_header ''Vary'' [] fresh_hono)
   \<and> res_header (hono_header ''Vary'' [] fresh_hono) ''Vary'' = Some []
   \<and> ''origin'' \<notin> set (vary_tokens [])
   \<and> res_header (ensureVaryOrigin (hono_header ''Vary'' [] fresh_hono)) ''Vary'' = Some ''Origin''
   \<and> ''Origin'' \<noteq> [] @ '', Origin''"
  by code_simp

section \<open>Normalization: \<^verbatim>\<open>toMutableResponse\<close>\<close>

lemma new_Response_valid:
  "valid_response r \<Longrightarrow>
   new_Response (body r) None (status r) (statusText r) hs = Inr (r\<lparr> headers := hs, bodyUsed := False \<rparr>)"
  by (auto simp: new_Response_def valid_response_def)

lemma new_Response_invalid:
  "\<not> valid_response r \<Longrightarrow> \<exists>e. new_Response (body r) None (status r) (statusText r) hs = Inl e"
  by (auto simp: new_Response_def valid_response_def)

lemma Response_json_object:
  "Response_json (JObject ps) = (if json_serializable (JObject ps) then Inr (json_response (JObject ps)) else Inl TypeError)"
  by (simp add: Response_json_def json_response_def)

lemma Response_json_array:
  "Response_json (JArray xs) = (if json_serializable (JArray xs) then Inr (json_response (JArray xs)) else Inl TypeError)"
  by (simp add: Response_json_def json_response_def)

lemmas text_primitive_defs =
  toMutableResponse_def body_of_jsval_def store_new_def new_Response_def
  null_body_status_def headers_get_def obj_alloc_def text_response_def




section \<open>The global wrapper\<close>

lemma replace_first_names:
  "k \<in> fst ` set hs \<Longrightarrow> fst ` set (replace_first k v hs) = fst ` set hs"
  by (induction hs) (auto simp: image_iff)

lemma headers_set_names: "fst ` set (headers_set hs name v) = insert (to_lower name) (fst ` set hs)"
  by (auto simp: headers_set_def replace_first_names)

lemma new_Response_stream_result:
  "new_Response b None st stText hs = Inr r' \<Longrightarrow>
     r' = \<lparr> status = st, statusText = stText, body = b, headers = hs, bodyUsed = False \<rparr>"
  by (auto simp: new_Response_def split: if_splits)

lemma clone_one_header_result:
  assumes "cloneWithExtraHeaders h a [(k, v)] = Inr (fin, h')"
  shows "\<exists>r. obj_get h a = Some r \<and> fin = length h
             \<and> h' = h @ [r\<lparr> headers := headers_set (headers r) k v, bodyUsed := False \<rparr>]"
proof -
  from assms obtain r where r: "obj_get h a = Some r"
    by (auto simp: cloneWithExtraHeaders_def split: option.splits)
  with assms obtain b where b: "body_stream r = Inr b"
    by (cases "body_stream r") (auto simp: cloneWithExtraHeaders_def)
  then have bb: "b = body r"
    by (auto simp: body_stream_def split: if_splits)
  from assms r b obtain r' where
    nr: "new_Response b None (status r) (statusText r) (headers_set (headers r) k v) = Inr r'"
    and res: "fin = length h" "h' = h @ [r']"
    by (auto simp: cloneWithExtraHeaders_def store_new_def obj_alloc_def split: sum.splits)
  from new_Response_stream_result [OF nr] bb
  have "r' = r\<lparr> headers := headers_set (headers r) k v, bodyUsed := False \<rparr>"
    by simp
  with r res show ?thesis
    by simp
qed

lemma obj_get_append_old: "obj_get h a = Some r \<Longrightarrow> obj_get (h @ [x]) a = Some r"
  by (auto simp: obj_get_def nth_append split: if_splits)

lemma obj_get_append_new: "obj_get (h @ [x]) (length h) = Some x"
  by (simp add: obj_get_def)

lemma obj_get_bound: "obj_get h a = Some r \<Longrightarrow> a < length h"
  by (auto simp: obj_get_def split: if_splits)

text \<open>
  C1. Whenever the global wrapper returns, what it returns is a new response object, a
  clone of the materialized response as that response stands at the moment of cloning:
  same status, status text and body, and the header collection of the materialized
  response with \<^verbatim>\<open>X-Trace-Id\<close> set to the trace id. The trace id is the one found in the
  store when the wrapper is entered, or else the freshly generated one, and it is what
  the wrapper stores for the rest of the request. The materialized response is the
  response found in the store after the downstream has run, or else, with none stored,
  the normalized downstream result. So every header name of the materialized response
  is on the clone, every header other than \<^verbatim>\<open>X-Trace-Id\<close> reads the same, and
  \<^verbatim>\<open>X-Trace-Id\<close> reads the trace id.
\<close>

theorem c1_global_wrapper_headers:
  assumes ret: "global_wrapper rid nxt c = (Inr out, c')"
  shows "\<exists>trace res c2 shared c3 r finalRes rf.
           (\<forall>t. trace_id c = Some t \<and> t \<noteq> [] \<longrightarrow> trace = t)
         \<and> (trace_id c = None \<or> trace_id c = Some [] \<longrightarrow> trace = rid)
         \<and> nxt (c\<lparr> trace_id := Some trace \<rparr>) = (Inr res, c2)
         \<and> (\<forall>a. mutable_response c2 = Some a \<longrightarrow>
                shared = a \<and> c3 = hono_header ''X-Trace-Id'' trace c2)
         \<and> (mutable_response c2 = None \<longrightarrow>
                (\<exists>h3. toMutableResponse (heap c2) res = Inr (shared, h3)
                    \<and> c3 = hono_header ''X-Trace-Id'' trace (c2\<lparr> heap := h3 \<rparr>)))
         \<and> obj_get (heap c3) shared = Some r
         \<and> out = JResponse finalRes \<and> finalRes \<noteq> shared \<and> finalRes = length (heap c3)
         \<and> c' = c3\<lparr> heap := heap c3 @ [rf] \<rparr>
         \<and> obj_get (heap c') finalRes = Some rf
         \<and> obj_get (heap c') shared = Some r
         \<and> rf = r\<lparr> headers := headers_set (headers r) ''X-Trace-Id'' trace, bodyUsed := False \<rparr>
         \<and> status rf = status r \<and> statusText rf = statusText r \<and> body rf = body r
         \<and> headers_get (headers rf) ''X-Trace-Id'' = Some trace
         \<and> (\<forall>name. to_lower name \<noteq> to_lower ''X-Trace-Id'' \<longrightarrow>
                headers_get (headers rf) name = headers_get (headers r) name)
         \<and> fst ` set (headers r) \<subseteq> fst ` set (headers rf)"
proof -
  define trace where "trace = (case trace_id c of None \<Rightarrow> rid | Some t \<Rightarrow> if t \<noteq> [] then t else rid)"
  have tr1: "\<forall>t. trace_id c = Some t \<and> t \<noteq> [] \<longrightarrow> trace = t"
    by (simp add: trace_def)
  have tr2: "trace_id c = None \<or> trace_id c = Some [] \<longrightarrow> trace = rid"
    by (auto simp: trace_def)
  obtain o2 c2 where n: "nxt (c\<lparr> trace_id := Some trace \<rparr>) = (o2, c2)"
    by (cases "nxt (c\<lparr> trace_id := Some trace \<rparr>)") auto
  from ret n obtain res where o2: "o2 = Inr res"
    by (cases o2) (auto simp: global_wrapper_def Let_def trace_def)
  define mat where "mat = (case mutable_response c2 of
                             Some shared \<Rightarrow> Inr (shared, heap c2)
                           | None \<Rightarrow> toMutableResponse (heap c2) res)"
  from ret n o2 obtain shared h3 where sw: "mat = Inr (shared, h3)"
    by (cases mat) (auto simp: global_wrapper_def Let_def trace_def mat_def)
  define c3 where "c3 = hono_header ''X-Trace-Id'' trace (c2\<lparr> heap := h3 \<rparr>)"
  have stored: "\<forall>a. mutable_response c2 = Some a \<longrightarrow> shared = a \<and> c3 = hono_header ''X-Trace-Id'' trace c2"
    using sw by (auto simp: mat_def c3_def)
  have wrapped: "mutable_response c2 = None \<longrightarrow>
                   (\<exists>h3. toMutableResponse (heap c2) res = Inr (shared, h3)
                       \<and> c3 = hono_header ''X-Trace-Id'' trace (c2\<lparr> heap := h3 \<rparr>))"
    using sw by (auto simp: mat_def c3_def)
  from ret n o2 sw obtain finalRes h4 where
    cl: "cloneWithExtraHeaders (heap c3) shared [(''X-Trace-Id'', trace)] = Inr (finalRes, h4)"
    and out: "out = JResponse finalRes" and c': "c' = c3\<lparr> heap := h4 \<rparr>"
    by (cases "cloneWithExtraHeaders (heap c3) shared [(''X-Trace-Id'', trace)]")
       (auto simp: global_wrapper_def Let_def trace_def mat_def c3_def)
  from clone_one_header_result [OF cl] obtain r where
    r: "obj_get (heap c3) shared = Some r" and fin: "finalRes = length (heap c3)"
    and h4: "h4 = heap c3 @ [r\<lparr> headers := headers_set (headers r) ''X-Trace-Id'' trace, bodyUsed := False \<rparr>]"
    by blast
  define rf where "rf = r\<lparr> headers := headers_set (headers r) ''X-Trace-Id'' trace, bodyUsed := False \<rparr>"
  have ne: "finalRes \<noteq> shared"
    using obj_get_bound [OF r] fin by simp
  have c'': "c' = c3\<lparr> heap := heap c3 @ [rf] \<rparr>"
    using c' h4 by (simp add: rf_def)
  have gf: "obj_get (heap c') finalRes = Some rf"
    using c'' fin by (simp add: obj_get_append_new)
  have gs: "obj_get (heap c') shared = Some r"
    using c'' r by (simp add: obj_get_append_old)
  have fields: "status rf = status r \<and> statusText rf = statusText r \<and> body rf = body r"
    by (simp add: rf_def)
  have names: "fst ` set (headers r) \<subseteq> fst ` set (headers rf)"
    by (auto simp: rf_def headers_set_names)
  have same: "headers_get (headers rf) ''X-Trace-Id'' = Some trace"
    by (simp add: rf_def headers_get_set_same)
  have other: "\<forall>name. to_lower name \<noteq> to_lower ''X-Trace-Id'' \<longrightarrow>
                headers_get (headers rf) name = headers_get (headers r) name"
    by (simp add: rf_def headers_get_set_other)
  have rfd: "rf = r\<lparr> headers := headers_set (headers r) ''X-Trace-Id'' trace, bodyUsed := False \<rparr>"
    by (rule rf_def)
  from n o2 have n': "nxt (c\<lparr> trace_id := Some trace \<rparr>) = (Inr res, c2)"
    by simp
  from fields have f1: "status rf = status r" and f2: "statusText rf = statusText r" and f3: "body rf = body r"
    by simp_all
  show ?thesis
    by (intro exI [of _ trace] exI [of _ res] exI [of _ c2] exI [of _ shared] exI [of _ c3]
        exI [of _ r] exI [of _ finalRes] exI [of _ rf] conjI)
       (rule tr1 tr2 n' stored wrapped r out ne fin c'' gf gs rfd f1 f2 f3 same other names)+
qed

theorem c1_global_wrapper_headers_witness:
  "(\<exists>finalRes c' rf.
      global_wrapper ''k3x9ab12'' text_downstream stored_hono = (Inr (JResponse finalRes), c')
    \<and> obj_get (heap c') finalRes = Some rf
    \<and> rf = \<lparr> status = 201, statusText = ''Created'', body = BText ''made'',
             headers = [(''x-from-mw'', ''1''), (''x-trace-id'', ''q7w8e9r0'')], bodyUsed = False \<rparr>)
   \<and> (\<exists>finalRes c' rf.
      global_wrapper ''k3x9ab12'' text_downstream fresh_hono = (Inr (JResponse finalRes), c')
    \<and> obj_get (heap c') finalRes = Some rf
    \<and> rf = \<lparr> status = 200, statusText = [], body = BText ''hello'',
             headers = [(''content-type'', ''text/plain;charset=UTF-8''), (''x-trace-id'', ''k3x9ab12'')],
             bodyUsed = False \<rparr>)"
proof (intro conjI)
  obtain out c' where ev: "global_wrapper ''k3x9ab12'' text_downstream stored_hono = (out, c')"
    by (cases "global_wrapper ''k3x9ab12'' text_downstream stored_hono") auto
  have "fst (global_wrapper ''k3x9ab12'' text_downstream stored_hono) = Inr (JResponse 2)"
    by code_simp
  with ev have ret: "global_wrapper ''k3x9ab12'' text_downstream stored_hono = (Inr (JResponse 2), c')"
    by simp
  from c1_global_wrapper_headers [OF ret] obtain trace res c2 shared c3 r finalRes rf where
    t1: "\<forall>t. trace_id stored_hono = Some t \<and> t \<noteq> [] \<longrightarrow> trace = t"
    and t2: "trace_id stored_hono = None \<or> trace_id stored_hono = Some [] \<longrightarrow> trace = ''k3x9ab12''"
    and n: "text_downstream (stored_hono\<lparr> trace_id := Some trace \<rparr>) = (Inr res, c2)"
    and st: "\<forall>a. mutable_response c2 = Some a \<longrightarrow> shared = a \<and> c3 = hono_header ''X-Trace-Id'' trace c2"
    and wr: "mutable_response c2 = None \<longrightarrow>
                (\<exists>h3. toMutableResponse (heap c2) res = Inr (shared, h3)
                    \<and> c3 = hono_header ''X-Trace-Id'' trace (c2\<lparr> heap := h3 \<rparr>))"
    and r: "obj_get (heap c3) shared = Some r"
    and o: "JResponse 2 = JResponse finalRes"
    and ne: "finalRes \<noteq> shared"
    and fl: "finalRes = length (heap c3)"
    and cc: "c' = c3\<lparr> heap := heap c3 @ [rf] \<rparr>"
    and gf: "obj_get (heap c') finalRes = Some rf"
    and gs: "obj_get (heap c') shared = Some r"
    and rf: "rf = r\<lparr> headers := headers_set (headers r) ''X-Trace-Id'' trace, bodyUsed := False \<rparr>"
    and f1: "status rf = status r"
    and f2: "statusText rf = statusText r"
    and f3: "body rf = body r"
    and sm: "headers_get (headers rf) ''X-Trace-Id'' = Some trace"
    and ot: "\<forall>name. to_lower name \<noteq> to_lower ''X-Trace-Id'' \<longrightarrow>
                headers_get (headers rf) name = headers_get (headers r) name"
    and nm: "fst ` set (headers r) \<subseteq> fst ` set (headers rf)"
    by (elim exE conjE) (rule that; assumption)
  have "trace_id stored_hono = Some ''q7w8e9r0''"
    by (simp add: stored_hono_def)
  with t1 have trace: "trace = ''q7w8e9r0''"
    by simp
  from n trace have c2: "c2 = stored_hono\<lparr> trace_id := Some ''q7w8e9r0'' \<rparr>"
    by (simp add: text_downstream_def)
  have "mutable_response (stored_hono\<lparr> trace_id := Some ''q7w8e9r0'' \<rparr>) = Some 0"
    by (simp add: stored_hono_def)
  with st c2 trace have sh: "shared = 0"
    and c3: "c3 = hono_header ''X-Trace-Id'' ''q7w8e9r0'' (stored_hono\<lparr> trace_id := Some ''q7w8e9r0'' \<rparr>)"
    by simp_all
  have "obj_get (heap (hono_header ''X-Trace-Id'' ''q7w8e9r0'' (stored_hono\<lparr> trace_id := Some ''q7w8e9r0'' \<rparr>))) 0
          = Some \<lparr> status = 201, statusText = ''Created'', body = BText ''made'',
                   headers = [(''x-from-mw'', ''1''), (''x-trace-id'', ''stale'')], bodyUsed = False \<rparr>"
    by code_simp
  with r sh c3 have rv: "r = \<lparr> status = 201, statusText = ''Created'', body = BText ''made'',
                      headers = [(''x-from-mw'', ''1''), (''x-trace-id'', ''stale'')], bodyUsed = False \<rparr>"
    by simp
  have "headers_set [(''x-from-mw'', ''1''), (''x-trace-id'', ''stale'')] ''X-Trace-Id'' ''q7w8e9r0''
          = [(''x-from-mw'', ''1''), (''x-trace-id'', ''q7w8e9r0'')]"
    by code_simp
  with rf rv trace have "rf = \<lparr> status = 201, statusText = ''Created'', body = BText ''made'',
             headers = [(''x-from-mw'', ''1''), (''x-trace-id'', ''q7w8e9r0'')], bodyUsed = False \<rparr>"
    by simp
  with ret o gf show "\<exists>finalRes c' rf.
      global_wrapper ''k3x9ab12'' text_downstream stored_hono = (Inr (JResponse finalRes), c')
    \<and> obj_get (heap c') finalRes = Some rf
    \<and> rf = \<lparr> status = 201, statusText = ''Created'', body = BText ''made'',
             headers = [(''x-from-mw'', ''1''), (''x-trace-id'', ''q7w8e9r0'')], bodyUsed = False \<rparr>"
    by auto
next
  obtain out c' where ev: "global_wrapper ''k3x9ab12'' text_downstream fresh_hono = (out, c')"
    by (cases "global_wrapper ''k3x9ab12'' text_downstream fresh_hono") auto
  have "fst (global_wrapper ''k3x9ab12'' text_downstream fresh_hono) = Inr (JResponse 2)"
    by code_simp
  with ev have ret: "global_wrapper ''k3x9ab12'' text_downstream fresh_hono = (Inr (JResponse 2), c')"
    by simp
  from c1_global_wrapper_headers [OF ret] obtain trace res c2 shared c3 r finalRes rf where
    t1: "\<forall>t. trace_id fresh_hono = Some t \<and> t \<noteq> [] \<longrightarrow> trace = t"
    and t2: "trace_id fresh_hono = None \<or> trace_id fresh_hono = Some [] \<longrightarrow> trace = ''k3x9ab12''"
    and n: "text_downstream (fresh_hono\<lparr> trace_id := Some trace \<rparr>) = (Inr res, c2)"
    and st: "\<forall>a. mutable_response c2 = Some a \<longrightarrow> shared = a \<and> c3 = hono_header ''X-Trace-Id'' trace c2"
    and wr: "mutable_response c2 = None \<longrightarrow>
                (\<exists>h3. toMutableResponse (heap c2) res = Inr (shared, h3)
                    \<and> c3 = hono_header ''X-Trace-Id'' trace (c2\<lparr> heap := h3 \<rparr>))"
    and r: "obj_get (heap c3) shared = Some r"
    and o: "JResponse 2 = JResponse finalRes"
    and ne: "finalRes \<noteq> shared"
    and fl: "finalRes = length (heap c3)"
    and cc: "c' = c3\<lparr> heap := heap c3 @ [rf] \<rparr>"
    and gf: "obj_get (heap c') finalRes = Some rf"
    and gs: "obj_get (heap c') shared = Some r"
    and rf: "rf = r\<lparr> headers := headers_set (headers r) ''X-Trace-Id'' trace, bodyUsed := False \<rparr>"
    and f1: "status rf = status r"
    and f2: "statusText rf = statusText r"
    and f3: "body rf = body r"
    and sm: "headers_get (headers rf) ''X-Trace-Id'' = Some trace"
    and ot: "\<forall>name. to_lower name \<noteq> to_lower ''X-Trace-Id'' \<longrightarrow>
                headers_get (headers rf) name = headers_get (headers r) name"
    and nm: "fst ` set (headers r) \<subseteq> fst ` set (headers rf)"
    by (elim exE conjE) (rule that; assumption)
  have "trace_id fresh_hono = None"
    by (simp add: fresh_hono_def)
  with t2 have trace: "trace = ''k3x9ab12''"
    by simp
  from n trace have c2: "c2 = fresh_hono\<lparr> trace_id := Some ''k3x9ab12'' \<rparr>" and res: "res = JStr ''hello''"
    by (simp_all add: text_downstream_def)
  have none: "mutable_response (fresh_hono\<lparr> trace_id := Some ''k3x9ab12'' \<rparr>) = None"
    by (simp add: fresh_hono_def)
  have tm: "toMutableResponse (heap (fresh_hono\<lparr> trace_id := Some ''k3x9ab12'' \<rparr>)) (JStr ''hello'')
              = Inr (0, [text_response ''hello''])"
    by code_simp
  from wr c2 res none tm trace have sh: "shared = 0"
    and c3: "c3 = hono_header ''X-Trace-Id'' ''k3x9ab12''
                    (fresh_hono\<lparr> trace_id := Some ''k3x9ab12'', heap := [text_response ''hello''] \<rparr>)"
    by auto
  have "obj_get (heap (hono_header ''X-Trace-Id'' ''k3x9ab12''
                    (fresh_hono\<lparr> trace_id := Some ''k3x9ab12'', heap := [text_response ''hello''] \<rparr>))) 0
          = Some (text_response ''hello'')"
    by code_simp
  with r sh c3 have rv: "r = text_response ''hello''"
    by simp
  have "headers_set (headers (text_response ''hello'')) ''X-Trace-Id'' ''k3x9ab12''
          = [(''content-type'', ''text/plain;charset=UTF-8''), (''x-trace-id'', ''k3x9ab12'')]"
    by code_simp
  with rf rv trace have "rf = \<lparr> status = 200, statusText = [], body = BText ''hello'',
             headers = [(''content-type'', ''text/plain;charset=UTF-8''), (''x-trace-id'', ''k3x9ab12'')],
             bodyUsed = False \<rparr>"
    by (simp add: text_response_def)
  with ret o gf show "\<exists>finalRes c' rf.
      global_wrapper ''k3x9ab12'' text_downstream fresh_hono = (Inr (JResponse finalRes), c')
    \<and> obj_get (heap c') finalRes = Some rf
    \<and> rf = \<lparr> status = 200, statusText = [], body = BText ''hello'',
             headers = [(''content-type'', ''text/plain;charset=UTF-8''), (''x-trace-id'', ''k3x9ab12'')],
             bodyUsed = False \<rparr>"
    by auto
qed

section \<open>The materializer: \<^verbatim>\<open>getSharedMutableResponse\<close>\<close>

lemma toMutableResponse_result:
  "toMutableResponse h v = Inr (a, h') \<Longrightarrow> \<exists>r. a = length h \<and> h' = h @ [r]"
  by (auto simp: toMutableResponse_def store_new_def obj_alloc_def
      split: if_splits jsval.splits option.splits sum.splits prod.splits)




section \<open>The chain composer\<close>

lemma idx_log_event [simp]: "idx (log_event ev st) = idx st"
  by (simp add: log_event_def)

lemma events_log_event [simp]: "events (log_event ev st) = events st @ [ev]"
  by (simp add: log_event_def)

lemma host_log_event [simp]: "host (log_event ev st) = host st"
  by (simp add: log_event_def)

lemma pending_log_event [simp]: "pending (log_event ev st) = pending st"
  by (simp add: log_event_def)

lemma idx_store_override [simp]: "idx (store_override ctx i r st) = idx st"
  by (simp add: store_override_def split: option.splits)

lemma pending_store_override [simp]: "pending (store_override ctx i r st) = pending st"
  by (simp add: store_override_def split: option.splits)

lemma link_events_store_override [simp]:
  "link_events (events (store_override ctx i r st)) = link_events (events st)"
  by (simp add: store_override_def link_events_def is_link_def split: option.splits)

lemma idx_leave_pending [simp]: "idx (leave_pending sp st) = idx st"
  by (simp add: leave_pending_def split: suspended.splits pending_point.splits list.splits)

lemma events_leave_pending [simp]: "events (leave_pending sp st) = events st"
  by (simp add: leave_pending_def split: suspended.splits pending_point.splits list.splits)

lemma host_leave_pending [simp]: "host (leave_pending sp st) = host st"
  by (simp add: leave_pending_def split: suspended.splits pending_point.splits list.splits)

lemma leave_pending_settled [simp]: "leave_pending (Susp (CallSettled res) []) st = st"
  by (simp add: leave_pending_def)

lemma is_response_undefined [simp]: "\<not> is_response JUndefined"
  by (simp add: is_response_def)

subsection \<open>The start of a call\<close>

lemma start_runAt_guard:
  "int i \<le> idx st \<Longrightarrow>
   start_runAt chain finalNext ctx i st = (Susp (CallSettled (Inl ChainProtocolError)) [], st)"
  by (subst start_runAt.simps) simp

lemma start_runAt_end:
  "\<not> int i \<le> idx st \<Longrightarrow> length chain \<le> i \<Longrightarrow>
   start_runAt chain finalNext ctx i st =
     (case finalNext of
        None \<Rightarrow> (Susp (CallSettled (Inr JUndefined)) [], log_event ChainFinished (st\<lparr> idx := int i \<rparr>))
      | Some fin \<Rightarrow> (Susp (CallSettled (fst (fin (host st)))) [],
                     (log_event ChainFinished (st\<lparr> idx := int i \<rparr>))\<lparr> host := snd (fin (host st)) \<rparr>))"
  by (subst start_runAt.simps) (simp split: option.splits prod.splits)

lemma start_runAt_handler:
  assumes "\<not> int i \<le> idx st" and "\<not> length chain \<le> i"
    and "start_exec (run_body (chain ! i) ctx)
           (\<lambda>reqOverride s. start_runAt chain finalNext ctx (Suc i)
                                (log_event (HandlerNext i) (store_override ctx i reqOverride s)))
           False
           (log_event (EnterHandler i (arity (chain ! i))) (st\<lparr> idx := int i \<rparr>)) = (stop, st')"
  shows "start_runAt chain finalNext ctx i st =
     (case stop of
        Settled settled called \<Rightarrow> (Susp (HandlerSettled i settled called) [], st')
      | Waiting (Susp point frames) k \<Rightarrow> (Susp point (frames @ [Frame i k]), st'))"
  using assms by (subst start_runAt.simps) simp

lemma start_exec_idx_mono:
  assumes "\<And>r s. idx s \<le> idx (snd (snxt r s))"
  shows "idx st \<le> idx (snd (start_exec p snxt called st))"
proof (induction p arbitrary: called st)
  case (CallNext r k)
  obtain sp st' where n: "snxt r st = (sp, st')"
    by (cases "snxt r st") auto
  with assms [of st r] show ?case
    by simp
next
  case (FireNext r p)
  obtain sp st' where n: "snxt r st = (sp, st')"
    by (cases "snxt r st") auto
  have a: "idx st \<le> idx st'"
    using assms [of st r] n by simp
  have "idx (leave_pending sp st') \<le> idx (snd (start_exec p snxt True (leave_pending sp st')))"
    by (rule FireNext.IH)
  with a show ?case
    using n by simp
next
  case (Effect f p)
  have "idx (st\<lparr> host := f (host st) \<rparr>)
          \<le> idx (snd (start_exec p snxt called (st\<lparr> host := f (host st) \<rparr>)))"
    by (rule Effect.IH)
  then show ?case
    by simp
next
  case (Observe k)
  have "idx st \<le> idx (snd (start_exec (k (host st)) snxt called st))"
    by (rule Observe.IH) simp
  then show ?case by simp
qed simp_all

lemma start_runAt_idx:
  "idx st \<le> idx (snd (start_runAt chain finalNext ctx i st))
   \<and> int i \<le> idx (snd (start_runAt chain finalNext ctx i st))"
proof (induction chain finalNext ctx i st rule: start_runAt.induct)
  case (1 chain finalNext ctx i st)
  show ?case
  proof (cases "int i \<le> idx st")
    case True
    then show ?thesis
      by (simp add: start_runAt_guard)
  next
    case guard: False
    show ?thesis
    proof (cases "length chain \<le> i")
      case True
      with guard show ?thesis
        by (simp add: start_runAt_end split: option.splits)
    next
      case inr: False
      let ?snxt = "\<lambda>reqOverride s. start_runAt chain finalNext ctx (Suc i)
                                (log_event (HandlerNext i) (store_override ctx i reqOverride s))"
      let ?st1 = "log_event (EnterHandler i (arity (chain ! i))) (st\<lparr> idx := int i \<rparr>)"
      have mono: "\<And>r s. idx s \<le> idx (snd (?snxt r s))"
        using "1.IH" [OF guard inr] by (metis idx_log_event idx_store_override)
      obtain stop st' where
        ex: "start_exec (run_body (chain ! i) ctx) ?snxt False ?st1 = (stop, st')"
        by (cases "start_exec (run_body (chain ! i) ctx) ?snxt False ?st1") auto
      have "idx ?st1 \<le> idx st'"
        using start_exec_idx_mono [of ?snxt ?st1 "run_body (chain ! i) ctx" False, OF mono] ex
        by simp
      then have st': "int i \<le> idx st'"
        by simp
      from start_runAt_handler [OF guard inr ex] st' guard show ?thesis
        by (auto split: hstop.splits suspended.splits)
    qed
  qed
qed

subsection \<open>A call run to its end\<close>

lemma stepNext_lambda:
  "(\<lambda>mode reqOverride s.
      case mode of
        Awaited \<Rightarrow>
          runAt chain finalNext ctx (Suc i) (log_event (HandlerNext i) (store_override ctx i reqOverride s))
      | Detached \<Rightarrow>
          (case start_runAt chain finalNext ctx (Suc i)
                  (log_event (HandlerNext i) (store_override ctx i reqOverride s)) of
             (sp, s') \<Rightarrow> (Inr JUndefined, leave_pending sp s')))
   = stepNext chain finalNext ctx i"
  by (intro ext) (simp add: stepNext_def)

lemma runAt_guard:
  "int i \<le> idx st \<Longrightarrow> runAt chain finalNext ctx i st = (Inl ChainProtocolError, st)"
  by (subst runAt.simps) simp

lemma runAt_end:
  "\<not> int i \<le> idx st \<Longrightarrow> length chain \<le> i \<Longrightarrow>
   runAt chain finalNext ctx i st =
     (case finalNext of
        None \<Rightarrow> (Inr JUndefined, log_event ChainFinished (st\<lparr> idx := int i \<rparr>))
      | Some fin \<Rightarrow> (fst (fin (host st)),
                     (log_event ChainFinished (st\<lparr> idx := int i \<rparr>))\<lparr> host := snd (fin (host st)) \<rparr>))"
  by (subst runAt.simps) (simp split: option.splits prod.splits)

lemma runAt_handler:
  assumes "\<not> int i \<le> idx st" and "\<not> length chain \<le> i"
    and "exec (run_body (chain ! i) ctx) (stepNext chain finalNext ctx i) False
           (log_event (EnterHandler i (arity (chain ! i))) (st\<lparr> idx := int i \<rparr>)) = ((settled, called), st')"
  shows "runAt chain finalNext ctx i st =
     (case settled of
        Inl e \<Rightarrow> (Inl e, st')
      | Inr out \<Rightarrow>
          if is_response out then (Inr out, log_event (ReturnedResponse i) st')
          else if out \<noteq> JUndefined then (Inr out, log_event (ReturnedValue i) st')
          else if \<not> called then runAt chain finalNext ctx (Suc i) (log_event (Advance i) st')
          else (Inr out, log_event (CompletedAfterNext i) st'))"
  using assms by (subst runAt.simps) (simp add: stepNext_lambda split: sum.splits)

lemma exec_idx_mono:
  assumes "\<And>mode r s. idx s \<le> idx (snd (nxt mode r s))"
  shows "idx st \<le> idx (snd (exec p nxt called st))"
proof (induction p arbitrary: called st)
  case (CallNext r k)
  obtain settled st' where n: "nxt Awaited r st = (settled, st')"
    by (cases "nxt Awaited r st") auto
  have "idx st \<le> idx st'"
    using assms [of st Awaited r] n by simp
  also have "idx st' \<le> idx (snd (exec (k settled) nxt True st'))"
    by (rule CallNext.IH) simp
  finally show ?case
    using n by simp
next
  case (FireNext r p)
  obtain promise st' where n: "nxt Detached r st = (promise, st')"
    by (cases "nxt Detached r st") auto
  have "idx st \<le> idx st'"
    using assms [of st Detached r] n by simp
  also have "idx st' \<le> idx (snd (exec p nxt True st'))"
    by (rule FireNext.IH)
  finally show ?case
    using n by simp
next
  case (Effect f p)
  have "idx (st\<lparr> host := f (host st) \<rparr>)
          \<le> idx (snd (exec p nxt called (st\<lparr> host := f (host st) \<rparr>)))"
    by (rule Effect.IH)
  then show ?case
    by simp
next
  case (Observe k)
  have "idx st \<le> idx (snd (exec (k (host st)) nxt called st))"
    by (rule Observe.IH) simp
  then show ?case by simp
qed simp_all

lemma stepNext_detached_idx:
  "idx s \<le> idx (snd (stepNext chain finalNext ctx i Detached r s))
   \<and> int (Suc i) \<le> idx (snd (stepNext chain finalNext ctx i Detached r s))"
proof -
  let ?s = "log_event (HandlerNext i) (store_override ctx i r s)"
  obtain sp s' where st: "start_runAt chain finalNext ctx (Suc i) ?s = (sp, s')"
    by (cases "start_runAt chain finalNext ctx (Suc i) ?s") auto
  from start_runAt_idx [of ?s chain finalNext ctx "Suc i"] st show ?thesis
    by (simp add: stepNext_def)
qed

lemma runAt_idx:
  "idx st \<le> idx (snd (runAt chain finalNext ctx i st)) \<and> int i \<le> idx (snd (runAt chain finalNext ctx i st))"
proof (induction chain finalNext ctx i st rule: runAt.induct)
  case (1 chain finalNext ctx i st)
  show ?case
  proof (cases "int i \<le> idx st")
    case True
    then show ?thesis
      by (simp add: runAt_guard)
  next
    case guard: False
    show ?thesis
    proof (cases "length chain \<le> i")
      case True
      with guard show ?thesis
        by (simp add: runAt_end split: option.splits)
    next
      case inr: False
      let ?st1 = "log_event (EnterHandler i (arity (chain ! i))) (st\<lparr> idx := int i \<rparr>)"
      have mono: "idx s \<le> idx (snd (stepNext chain finalNext ctx i mode r s))" for mode r s
      proof (cases mode)
        case Awaited
        have "idx (log_event (HandlerNext i) (store_override ctx i r s))
                \<le> idx (snd (runAt chain finalNext ctx (Suc i)
                               (log_event (HandlerNext i) (store_override ctx i r s))))"
          using "1.IH"(1) [OF guard inr refl] by blast
        with Awaited show ?thesis
          by (simp add: stepNext_def)
      next
        case Detached
        with stepNext_detached_idx show ?thesis
          by blast
      qed
      obtain settled called st' where
        ex: "exec (run_body (chain ! i) ctx) (stepNext chain finalNext ctx i) False ?st1 = ((settled, called), st')"
        by (cases "exec (run_body (chain ! i) ctx) (stepNext chain finalNext ctx i) False ?st1") auto
      have "idx ?st1 \<le> idx st'"
        using exec_idx_mono [of "stepNext chain finalNext ctx i" ?st1 "run_body (chain ! i) ctx" False, OF mono] ex
        by simp
      then have st': "int i \<le> idx st'"
        by simp
      note unfold = runAt_handler [OF guard inr ex]
      show ?thesis
      proof (cases settled)
        case (Inl e)
        with unfold st' guard show ?thesis
          by simp
      next
        case (Inr out)
        show ?thesis
        proof (cases "\<not> is_response out \<and> out = JUndefined \<and> \<not> called")
          case True
          then have adv: "\<not> is_response out" "\<not> out \<noteq> JUndefined" "\<not> called"
            by blast+
          have ih: "idx (log_event (Advance i) st')
                      \<le> idx (snd (runAt chain finalNext ctx (Suc i) (log_event (Advance i) st')))"
            using "1.IH"(2) [OF guard inr _ refl Inr adv] ex by (simp add: stepNext_lambda)
          from unfold Inr True
          have "runAt chain finalNext ctx i st = runAt chain finalNext ctx (Suc i) (log_event (Advance i) st')"
            by simp
          with ih st' guard show ?thesis
            by simp
        next
          case False
          with unfold Inr st' guard show ?thesis
            by auto
        qed
      qed
    qed
  qed
qed

lemma stepNext_idx_reached: "int (Suc i) \<le> idx (snd (stepNext chain finalNext ctx i mode r s))"
proof (cases mode)
  case Awaited
  have "int (Suc i) \<le> idx (snd (runAt chain finalNext ctx (Suc i)
                                     (log_event (HandlerNext i) (store_override ctx i r s))))"
    using runAt_idx [of "log_event (HandlerNext i) (store_override ctx i r s)" chain finalNext ctx "Suc i"]
    by blast
  with Awaited show ?thesis
    by (simp add: stepNext_def)
next
  case Detached
  with stepNext_detached_idx show ?thesis
    by blast
qed

lemma stepNext_after_reached:
  assumes "int (Suc i) \<le> idx s"
  shows "stepNext chain finalNext ctx i mode r s
           = ((case mode of Awaited \<Rightarrow> Inl ChainProtocolError | Detached \<Rightarrow> Inr JUndefined),
              log_event (HandlerNext i) (store_override ctx i r s))"
  using assms by (cases mode) (simp_all add: stepNext_def runAt_guard start_runAt_guard)

lemma link_events_append [simp]: "link_events (xs @ ys) = link_events xs @ link_events ys"
  by (simp add: link_events_def)

lemma link_events_HandlerNext [simp]: "link_events [HandlerNext i] = []"
  by (simp add: link_events_def is_link_def)

lemma exec_after_reached:
  assumes "int (Suc i) \<le> idx s"
  shows "link_events (events (snd (exec p (stepNext chain finalNext ctx i) called s))) = link_events (events s)
         \<and> pending (snd (exec p (stepNext chain finalNext ctx i) called s)) = pending s
         \<and> int (Suc i) \<le> idx (snd (exec p (stepNext chain finalNext ctx i) called s))"
  using assms
proof (induction p arbitrary: called s)
  case (CallNext r k)
  let ?s' = "log_event (HandlerNext i) (store_override ctx i r s)"
  have step: "stepNext chain finalNext ctx i Awaited r s = (Inl ChainProtocolError, ?s')"
    using stepNext_after_reached [OF CallNext.prems, of chain finalNext ctx Awaited r] by simp
  have "int (Suc i) \<le> idx ?s'"
    using CallNext.prems by simp
  then have "link_events (events (snd (exec (k (Inl ChainProtocolError)) (stepNext chain finalNext ctx i) True ?s')))
               = link_events (events ?s')
             \<and> pending (snd (exec (k (Inl ChainProtocolError)) (stepNext chain finalNext ctx i) True ?s'))
               = pending ?s'
             \<and> int (Suc i) \<le> idx (snd (exec (k (Inl ChainProtocolError)) (stepNext chain finalNext ctx i) True ?s'))"
    by (intro CallNext.IH) simp_all
  with step show ?case
    by simp
next
  case (FireNext r p)
  let ?s' = "log_event (HandlerNext i) (store_override ctx i r s)"
  have step: "stepNext chain finalNext ctx i Detached r s = (Inr JUndefined, ?s')"
    using stepNext_after_reached [OF FireNext.prems, of chain finalNext ctx Detached r] by simp
  have "int (Suc i) \<le> idx ?s'"
    using FireNext.prems by simp
  then have "link_events (events (snd (exec p (stepNext chain finalNext ctx i) True ?s')))
               = link_events (events ?s')
             \<and> pending (snd (exec p (stepNext chain finalNext ctx i) True ?s')) = pending ?s'
             \<and> int (Suc i) \<le> idx (snd (exec p (stepNext chain finalNext ctx i) True ?s'))"
    by (intro FireNext.IH)
  with step show ?case
    by simp
next
  case (Effect f p)
  have "link_events (events (snd (exec p (stepNext chain finalNext ctx i) called (s\<lparr> host := f (host s) \<rparr>))))
          = link_events (events (s\<lparr> host := f (host s) \<rparr>))
        \<and> pending (snd (exec p (stepNext chain finalNext ctx i) called (s\<lparr> host := f (host s) \<rparr>)))
          = pending (s\<lparr> host := f (host s) \<rparr>)
        \<and> int (Suc i) \<le> idx (snd (exec p (stepNext chain finalNext ctx i) called (s\<lparr> host := f (host s) \<rparr>)))"
    using Effect.prems by (intro Effect.IH) simp
  then show ?case
    by simp
next
  case (Observe k)
  have "link_events (events (snd (exec (k (host s)) (stepNext chain finalNext ctx i) called s)))
          = link_events (events s)
        \<and> pending (snd (exec (k (host s)) (stepNext chain finalNext ctx i) called s)) = pending s
        \<and> int (Suc i) \<le> idx (snd (exec (k (host s)) (stepNext chain finalNext ctx i) called s))"
    using Observe.prems by (intro Observe.IH) simp_all
  then show ?case
    by simp
qed simp_all

subsection \<open>No link executes twice\<close>

lemma event_ok_mono: "event_ok n k ev \<Longrightarrow> k \<le> k' \<Longrightarrow> event_ok n k' ev"
  by (auto simp: event_ok_def split: event.splits)

lemma links_once_host [simp]: "links_once n (st\<lparr> host := c \<rparr>) = links_once n st"
  by (simp add: links_once_def)

lemma links_once_plain:
  "\<not> is_link ev \<Longrightarrow> links_once n st \<Longrightarrow> links_once n (log_event ev st)"
  by (auto simp: links_once_def link_events_def event_ok_def is_link_def split: event.splits)

lemma links_once_store_override: "links_once n st \<Longrightarrow> links_once n (store_override ctx i r st)"
  by (auto simp: store_override_def links_once_plain is_link_def split: option.splits)

lemma links_once_enter:
  assumes inv: "links_once n st" and fresh: "idx st < int i" and inr: "i < n"
  shows "links_once n (log_event (EnterHandler i a) (st\<lparr> idx := int i \<rparr>))"
proof -
  have old: "list_all (event_ok n (idx st)) (events st)"
    using inv by (simp add: links_once_def)
  have no_dup: "EnterHandler i a \<notin> set (events st)"
  proof
    assume "EnterHandler i a \<in> set (events st)"
    with old have "event_ok n (idx st) (EnterHandler i a)"
      by (simp add: list_all_iff)
    with fresh show False
      by (simp add: event_ok_def)
  qed
  have no_fin: "ChainFinished \<notin> set (events st)"
  proof
    assume "ChainFinished \<in> set (events st)"
    with old have "event_ok n (idx st) ChainFinished"
      by (simp add: list_all_iff)
    with fresh inr show False
      by (simp add: event_ok_def)
  qed
  have new: "list_all (event_ok n (int i)) (events st)"
    unfolding list_all_iff
  proof
    fix ev
    assume ev: "ev \<in> set (events st)"
    with old have "event_ok n (idx st) ev"
      by (simp add: list_all_iff)
    then show "event_ok n (int i) ev"
      using fresh by (intro event_ok_mono [of n "idx st" ev "int i"]) simp_all
  qed
  from inv no_dup new inr show ?thesis
    by (simp add: links_once_def link_events_def event_ok_def)
qed

lemma links_once_finish:
  assumes inv: "links_once n st" and fresh: "idx st < int n"
  shows "links_once n (log_event ChainFinished (st\<lparr> idx := int n \<rparr>))"
proof -
  have old: "list_all (event_ok n (idx st)) (events st)"
    using inv by (simp add: links_once_def)
  have no_fin: "ChainFinished \<notin> set (events st)"
  proof
    assume "ChainFinished \<in> set (events st)"
    with old have "event_ok n (idx st) ChainFinished"
      by (simp add: list_all_iff)
    with fresh show False
      by (simp add: event_ok_def)
  qed
  have new: "list_all (event_ok n (int n)) (events st)"
    unfolding list_all_iff
  proof
    fix ev
    assume ev: "ev \<in> set (events st)"
    with old have "event_ok n (idx st) ev"
      by (simp add: list_all_iff)
    then show "event_ok n (int n) ev"
      using fresh by (intro event_ok_mono [of n "idx st" ev "int n"]) simp_all
  qed
  from inv no_fin new show ?thesis
    by (simp add: links_once_def link_events_def event_ok_def)
qed

lemma links_once_leave_pending [simp]: "links_once n (leave_pending sp st) = links_once n st"
  by (simp add: links_once_def)

lemma start_exec_links_once:
  assumes "\<And>r s. links_once n s \<Longrightarrow> links_once n (snd (snxt r s))"
  shows "links_once n st \<Longrightarrow> links_once n (snd (start_exec p snxt called st))"
proof (induction p arbitrary: called st)
  case (CallNext r k)
  obtain sp st' where n: "snxt r st = (sp, st')"
    by (cases "snxt r st") auto
  with assms [OF CallNext.prems, of r] show ?case
    by simp
next
  case (FireNext r p)
  obtain sp st' where n: "snxt r st = (sp, st')"
    by (cases "snxt r st") auto
  have "links_once n st'"
    using assms [OF FireNext.prems, of r] n by simp
  then have "links_once n (snd (start_exec p snxt True (leave_pending sp st')))"
    by (intro FireNext.IH) simp
  with n show ?case
    by simp
next
  case (Effect f p)
  have "links_once n (snd (start_exec p snxt called (st\<lparr> host := f (host st) \<rparr>)))"
    using Effect.prems by (intro Effect.IH) simp
  then show ?case
    by simp
next
  case (Observe k)
  have "links_once n (snd (start_exec (k (host st)) snxt called st))"
    using Observe.prems by (intro Observe.IH) simp_all
  then show ?case
    by simp
qed simp_all

lemma start_runAt_links_once:
  "i \<le> length chain \<Longrightarrow> links_once (length chain) st \<Longrightarrow>
   links_once (length chain) (snd (start_runAt chain finalNext ctx i st))"
proof (induction chain finalNext ctx i st rule: start_runAt.induct)
  case (1 chain finalNext ctx i st)
  show ?case
  proof (cases "int i \<le> idx st")
    case True
    with "1.prems" show ?thesis
      by (simp add: start_runAt_guard)
  next
    case guard: False
    show ?thesis
    proof (cases "length chain \<le> i")
      case True
      with "1.prems" have i: "i = length chain"
        by simp
      from guard i have "idx st < int (length chain)"
        by simp
      from links_once_finish [OF "1.prems"(2) this] guard True i show ?thesis
        by (simp add: start_runAt_end split: option.splits)
    next
      case inr: False
      then have lt: "i < length chain" and suc: "Suc i \<le> length chain"
        by simp_all
      let ?snxt = "\<lambda>reqOverride s. start_runAt chain finalNext ctx (Suc i)
                                (log_event (HandlerNext i) (store_override ctx i reqOverride s))"
      let ?st1 = "log_event (EnterHandler i (arity (chain ! i))) (st\<lparr> idx := int i \<rparr>)"
      have st1: "links_once (length chain) ?st1"
        using "1.prems"(2) guard lt by (intro links_once_enter) simp_all
      have pres: "\<And>r s. links_once (length chain) s \<Longrightarrow> links_once (length chain) (snd (?snxt r s))"
        by (intro "1.IH" [OF guard inr suc] links_once_plain links_once_store_override)
           (simp_all add: is_link_def)
      obtain stop st' where
        ex: "start_exec (run_body (chain ! i) ctx) ?snxt False ?st1 = (stop, st')"
        by (cases "start_exec (run_body (chain ! i) ctx) ?snxt False ?st1") auto
      have st': "links_once (length chain) st'"
        using start_exec_links_once [of "length chain" ?snxt ?st1 "run_body (chain ! i) ctx" False,
                                     OF pres st1] ex
        by simp
      from start_runAt_handler [OF guard inr ex] st' show ?thesis
        by (auto split: hstop.splits suspended.splits)
    qed
  qed
qed

lemma exec_links_once:
  assumes "\<And>mode r s. links_once n s \<Longrightarrow> links_once n (snd (nxt mode r s))"
  shows "links_once n st \<Longrightarrow> links_once n (snd (exec p nxt called st))"
proof (induction p arbitrary: called st)
  case (CallNext r k)
  obtain settled st' where n: "nxt Awaited r st = (settled, st')"
    by (cases "nxt Awaited r st") auto
  have "links_once n st'"
    using assms [OF CallNext.prems, of Awaited r] n by simp
  then have "links_once n (snd (exec (k settled) nxt True st'))"
    by (intro CallNext.IH) simp_all
  with n show ?case
    by simp
next
  case (FireNext r p)
  obtain promise st' where n: "nxt Detached r st = (promise, st')"
    by (cases "nxt Detached r st") auto
  have "links_once n st'"
    using assms [OF FireNext.prems, of Detached r] n by simp
  then have "links_once n (snd (exec p nxt True st'))"
    by (intro FireNext.IH)
  with n show ?case
    by simp
next
  case (Effect f p)
  have "links_once n (snd (exec p nxt called (st\<lparr> host := f (host st) \<rparr>)))"
    using Effect.prems by (intro Effect.IH) simp
  then show ?case
    by simp
next
  case (Observe k)
  have "links_once n (snd (exec (k (host st)) nxt called st))"
    using Observe.prems by (intro Observe.IH) simp_all
  then show ?case
    by simp
qed simp_all

lemma stepNext_detached_links_once:
  assumes "Suc i \<le> length chain" and "links_once (length chain) s"
  shows "links_once (length chain) (snd (stepNext chain finalNext ctx i Detached r s))"
proof -
  let ?s = "log_event (HandlerNext i) (store_override ctx i r s)"
  have s: "links_once (length chain) ?s"
    using assms(2) by (intro links_once_plain links_once_store_override) (simp_all add: is_link_def)
  obtain sp s' where st: "start_runAt chain finalNext ctx (Suc i) ?s = (sp, s')"
    by (cases "start_runAt chain finalNext ctx (Suc i) ?s") auto
  from start_runAt_links_once [OF assms(1) s, of finalNext ctx] st show ?thesis
    by (simp add: stepNext_def)
qed

lemma runAt_links_once:
  "i \<le> length chain \<Longrightarrow> links_once (length chain) st \<Longrightarrow>
   links_once (length chain) (snd (runAt chain finalNext ctx i st))"
proof (induction chain finalNext ctx i st rule: runAt.induct)
  case (1 chain finalNext ctx i st)
  show ?case
  proof (cases "int i \<le> idx st")
    case True
    with "1.prems" show ?thesis
      by (simp add: runAt_guard)
  next
    case guard: False
    show ?thesis
    proof (cases "length chain \<le> i")
      case True
      with "1.prems" have i: "i = length chain"
        by simp
      from guard i have "idx st < int (length chain)"
        by simp
      from links_once_finish [OF "1.prems"(2) this] guard True i show ?thesis
        by (simp add: runAt_end split: option.splits)
    next
      case inr: False
      then have lt: "i < length chain" and suc: "Suc i \<le> length chain"
        by simp_all
      let ?st1 = "log_event (EnterHandler i (arity (chain ! i))) (st\<lparr> idx := int i \<rparr>)"
      have st1: "links_once (length chain) ?st1"
        using "1.prems"(2) guard lt by (intro links_once_enter) simp_all
      have pres: "links_once (length chain) (snd (stepNext chain finalNext ctx i mode r s))"
        if s: "links_once (length chain) s" for mode r s
      proof (cases mode)
        case Awaited
        have "links_once (length chain)
                (snd (runAt chain finalNext ctx (Suc i) (log_event (HandlerNext i) (store_override ctx i r s))))"
          using s by (intro "1.IH"(1) [OF guard inr refl suc] links_once_plain links_once_store_override)
                     (simp_all add: is_link_def)
        with Awaited show ?thesis
          by (simp add: stepNext_def)
      next
        case Detached
        with stepNext_detached_links_once [OF suc s] show ?thesis
          by simp
      qed
      obtain settled called st' where
        ex: "exec (run_body (chain ! i) ctx) (stepNext chain finalNext ctx i) False ?st1 = ((settled, called), st')"
        by (cases "exec (run_body (chain ! i) ctx) (stepNext chain finalNext ctx i) False ?st1") auto
      have st': "links_once (length chain) st'"
        using exec_links_once [of "length chain" "stepNext chain finalNext ctx i" ?st1
                                  "run_body (chain ! i) ctx" False, OF pres st1] ex
        by simp
      note unfold = runAt_handler [OF guard inr ex]
      show ?thesis
      proof (cases settled)
        case (Inl e)
        with unfold st' show ?thesis
          by simp
      next
        case (Inr out)
        show ?thesis
        proof (cases "\<not> is_response out \<and> out = JUndefined \<and> \<not> called")
          case True
          then have adv: "\<not> is_response out" "\<not> out \<noteq> JUndefined" "\<not> called"
            by blast+
          have adv_st: "links_once (length chain) (log_event (Advance i) st')"
            using st' by (intro links_once_plain) (simp_all add: is_link_def)
          have ih: "links_once (length chain)
                      (snd (runAt chain finalNext ctx (Suc i) (log_event (Advance i) st')))"
            using "1.IH"(2) [OF guard inr _ refl Inr adv suc adv_st] ex by (simp add: stepNext_lambda)
          from unfold Inr True
          have "runAt chain finalNext ctx i st = runAt chain finalNext ctx (Suc i) (log_event (Advance i) st')"
            by simp
          with ih show ?thesis
            by simp
        next
          case False
          have "links_once (length chain) (log_event (ReturnedResponse i) st')"
               "links_once (length chain) (log_event (ReturnedValue i) st')"
               "links_once (length chain) (log_event (CompletedAfterNext i) st')"
            using st' by (simp_all add: links_once_plain is_link_def)
          with unfold Inr False show ?thesis
            by auto
        qed
      qed
    qed
  qed
qed

lemma run_links_once: "distinct (link_events (events (snd (run chain ctx finalNext c))))"
proof -
  have "links_once (length chain) \<lparr> idx = - 1, events = [], pending = [], host = c \<rparr>"
    by (simp add: links_once_def link_events_def)
  then have "links_once (length chain) (snd (run chain ctx finalNext c))"
    unfolding run_def by (intro runAt_links_once) simp_all
  then show ?thesis
    by (simp add: links_once_def)
qed

subsection \<open>Awaited calls leave nothing behind\<close>

lemma exec_awaits_pending:
  assumes "\<And>r s. pending (snd (nxt Awaited r s)) = pending s"
  shows "awaits_all p \<Longrightarrow> pending (snd (exec p nxt called st)) = pending st"
proof (induction p arbitrary: called st)
  case (CallNext r k)
  obtain settled st' where n: "nxt Awaited r st = (settled, st')"
    by (cases "nxt Awaited r st") auto
  have "pending st' = pending st"
    using assms [of r st] n by simp
  moreover have "pending (snd (exec (k settled) nxt True st')) = pending st'"
    using CallNext.prems by (intro CallNext.IH) simp_all
  ultimately show ?case
    using n by simp
next
  case (Effect f p)
  have "pending (snd (exec p nxt called (st\<lparr> host := f (host st) \<rparr>))) = pending (st\<lparr> host := f (host st) \<rparr>)"
    using Effect.prems by (intro Effect.IH) simp
  then show ?case
    by simp
next
  case (Observe k)
  have "pending (snd (exec (k (host st)) nxt called st)) = pending st"
    using Observe.prems by (intro Observe.IH) simp_all
  then show ?case
    by simp
qed simp_all

lemma runAt_awaits_pending:
  "\<forall>h \<in> set chain. awaits_all (run_body h ctx) \<Longrightarrow>
   pending (snd (runAt chain finalNext ctx i st)) = pending st"
proof (induction chain finalNext ctx i st rule: runAt.induct)
  case (1 chain finalNext ctx i st)
  show ?case
  proof (cases "int i \<le> idx st")
    case True
    then show ?thesis
      by (simp add: runAt_guard)
  next
    case guard: False
    show ?thesis
    proof (cases "length chain \<le> i")
      case True
      with guard show ?thesis
        by (simp add: runAt_end split: option.splits)
    next
      case inr: False
      let ?st1 = "log_event (EnterHandler i (arity (chain ! i))) (st\<lparr> idx := int i \<rparr>)"
      have aw: "awaits_all (run_body (chain ! i) ctx)"
        using "1.prems" inr by simp
      have pres: "pending (snd (stepNext chain finalNext ctx i Awaited r s)) = pending s" for r s
        using "1.IH"(1) [OF guard inr refl "1.prems", of r s] by (simp add: stepNext_def)
      obtain settled called st' where
        ex: "exec (run_body (chain ! i) ctx) (stepNext chain finalNext ctx i) False ?st1 = ((settled, called), st')"
        by (cases "exec (run_body (chain ! i) ctx) (stepNext chain finalNext ctx i) False ?st1") auto
      have st': "pending st' = pending st"
        using exec_awaits_pending [of "stepNext chain finalNext ctx i" "run_body (chain ! i) ctx" False ?st1,
                                   OF pres aw] ex
        by simp
      note unfold = runAt_handler [OF guard inr ex]
      show ?thesis
      proof (cases settled)
        case (Inl e)
        with unfold st' show ?thesis
          by simp
      next
        case (Inr out)
        show ?thesis
        proof (cases "\<not> is_response out \<and> out = JUndefined \<and> \<not> called")
          case True
          then have adv: "\<not> is_response out" "\<not> out \<noteq> JUndefined" "\<not> called"
            by blast+
          have ih: "pending (snd (runAt chain finalNext ctx (Suc i) (log_event (Advance i) st')))
                      = pending (log_event (Advance i) st')"
            using "1.IH"(2) [OF guard inr _ refl Inr adv "1.prems"] ex by (simp add: stepNext_lambda)
          from unfold Inr True
          have "runAt chain finalNext ctx i st = runAt chain finalNext ctx (Suc i) (log_event (Advance i) st')"
            by simp
          with ih st' show ?thesis
            by simp
        next
          case False
          with unfold Inr st' show ?thesis
            by auto
        qed
      qed
    qed
  qed
qed

subsection \<open>A call awaited is the call started and then taken up\<close>

lemma resume_frames_append:
  "resume_frames chain finalNext ctx (fs @ gs) settled st =
     (case resume_frames chain finalNext ctx fs settled st of
        (res, st') \<Rightarrow> resume_frames chain finalNext ctx gs res st')"
proof (induction fs arbitrary: settled st)
  case Nil
  show ?case
    by simp
next
  case (Cons f fs)
  obtain j k where f: "f = Frame j k"
    by (cases f) auto
  show ?case
    unfolding f by (simp add: Cons.IH split: prod.splits)
qed

lemma resume_append_frame:
  "resume chain finalNext ctx (Susp point (frames @ [Frame i k])) st =
     (case resume chain finalNext ctx (Susp point frames) st of
        (res, st') \<Rightarrow>
          (case exec (k res) (stepNext chain finalNext ctx i) True st' of
             ((res', called), st'') \<Rightarrow> handle_result chain finalNext ctx i res' called st''))"
  by (simp add: resume_def resume_frames_append split: prod.splits)

lemma stepNext_awaited:
  "stepNext chain finalNext ctx i Awaited r s
     = runAt chain finalNext ctx (Suc i) (log_event (HandlerNext i) (store_override ctx i r s))"
  by (simp add: stepNext_def)

lemma stepNext_detached:
  "stepNext chain finalNext ctx i Detached r s
     = (case start_runAt chain finalNext ctx (Suc i) (log_event (HandlerNext i) (store_override ctx i r s)) of
          (sp, s') \<Rightarrow> (Inr JUndefined, leave_pending sp s'))"
  by (simp add: stepNext_def)

lemma resume_handler_settled:
  "resume chain finalNext ctx (Susp (HandlerSettled i settled called) []) st
     = handle_result chain finalNext ctx i settled called st"
  by (simp add: resume_def split: prod.splits)

lemma resume_call_settled: "resume chain finalNext ctx (Susp (CallSettled settled) []) st = (settled, st)"
  by (simp add: resume_def)

lemma runAt_handle_result:
  assumes "\<not> int i \<le> idx st" and "\<not> length chain \<le> i"
    and "exec (run_body (chain ! i) ctx) (stepNext chain finalNext ctx i) False
           (log_event (EnterHandler i (arity (chain ! i))) (st\<lparr> idx := int i \<rparr>)) = ((settled, called), st')"
  shows "runAt chain finalNext ctx i st = handle_result chain finalNext ctx i settled called st'"
  using runAt_handler [OF assms] by (simp add: handle_result_def)

lemma exec_start_resume:
  assumes nx: "\<And>r s. runAt chain finalNext ctx (Suc i) (log_event (HandlerNext i) (store_override ctx i r s))
                  = (case start_runAt chain finalNext ctx (Suc i)
                            (log_event (HandlerNext i) (store_override ctx i r s)) of
                       (sp, s') \<Rightarrow> resume chain finalNext ctx sp s')"
  shows "exec p (stepNext chain finalNext ctx i) called st =
     (case start_exec p
             (\<lambda>reqOverride s. start_runAt chain finalNext ctx (Suc i)
                                  (log_event (HandlerNext i) (store_override ctx i reqOverride s)))
             called st of
        (Settled settled c, st') \<Rightarrow> ((settled, c), st')
      | (Waiting sp k, st') \<Rightarrow>
          (case resume chain finalNext ctx sp st' of
             (res, st'') \<Rightarrow> exec (k res) (stepNext chain finalNext ctx i) True st''))"
proof (induction p arbitrary: called st)
  case (CallNext r k)
  show ?case
    by (simp add: stepNext_awaited nx split: prod.splits)
next
  case (FireNext r p)
  show ?case
    by (simp add: stepNext_detached FireNext.IH split: prod.splits)
next
  case (Effect f p)
  show ?case
    by (simp add: Effect.IH)
next
  case (Observe k)
  show ?case
    by (simp add: Observe.IH)
qed simp_all

lemma runAt_start_resume:
  "runAt chain finalNext ctx i st =
     (case start_runAt chain finalNext ctx i st of (sp, st') \<Rightarrow> resume chain finalNext ctx sp st')"
proof (induction chain finalNext ctx i st rule: start_runAt.induct)
  case (1 chain finalNext ctx i st)
  show ?case
  proof (cases "int i \<le> idx st")
    case True
    then show ?thesis
      by (simp add: runAt_guard start_runAt_guard resume_call_settled)
  next
    case guard: False
    show ?thesis
    proof (cases "length chain \<le> i")
      case True
      with guard show ?thesis
        by (simp add: runAt_end start_runAt_end resume_call_settled split: option.splits)
    next
      case inr: False
      let ?snxt = "\<lambda>reqOverride s. start_runAt chain finalNext ctx (Suc i)
                                (log_event (HandlerNext i) (store_override ctx i reqOverride s))"
      let ?st1 = "log_event (EnterHandler i (arity (chain ! i))) (st\<lparr> idx := int i \<rparr>)"
      let ?p = "run_body (chain ! i) ctx"
      have nx: "\<And>r s. runAt chain finalNext ctx (Suc i) (log_event (HandlerNext i) (store_override ctx i r s))
                  = (case ?snxt r s of (sp, s') \<Rightarrow> resume chain finalNext ctx sp s')"
        by (rule "1.IH" [OF guard inr])
      obtain stop st' where se: "start_exec ?p ?snxt False ?st1 = (stop, st')"
        by (cases "start_exec ?p ?snxt False ?st1") auto
      note whole = exec_start_resume [of chain finalNext ctx i ?p False ?st1, OF nx]
      show ?thesis
      proof (cases stop)
        case (Settled settled called)
        with whole se have ex: "exec ?p (stepNext chain finalNext ctx i) False ?st1 = ((settled, called), st')"
          by simp
        from runAt_handle_result [OF guard inr ex] start_runAt_handler [OF guard inr se] Settled show ?thesis
          by (simp add: resume_handler_settled)
      next
        case (Waiting sp k)
        obtain point frames where sp: "sp = Susp point frames"
          by (cases sp) auto
        obtain res st'' where re: "resume chain finalNext ctx (Susp point frames) st' = (res, st'')"
          by (cases "resume chain finalNext ctx (Susp point frames) st'") auto
        obtain res' called st3 where
          e2: "exec (k res) (stepNext chain finalNext ctx i) True st'' = ((res', called), st3)"
          by (cases "exec (k res) (stepNext chain finalNext ctx i) True st''") auto
        from whole se Waiting sp re e2
        have ex: "exec ?p (stepNext chain finalNext ctx i) False ?st1 = ((res', called), st3)"
          by simp
        from start_runAt_handler [OF guard inr se] Waiting sp
        have "start_runAt chain finalNext ctx i st = (Susp point (frames @ [Frame i k]), st')"
          by simp
        then have "(case start_runAt chain finalNext ctx i st of (sp, st') \<Rightarrow> resume chain finalNext ctx sp st')
                     = handle_result chain finalNext ctx i res' called st3"
          by (simp add: resume_append_frame re e2)
        with runAt_handle_result [OF guard inr ex] show ?thesis
          by simp
      qed
    qed
  qed
qed

subsection \<open>What stays behind can be taken up at any time\<close>

lemma pending_ok_log_event [simp]: "pending_ok n (log_event ev st) = pending_ok n st"
  by (simp add: pending_ok_def)

lemma pending_ok_store_override [simp]: "pending_ok n (store_override ctx i r st) = pending_ok n st"
  by (simp add: pending_ok_def)

lemma pending_ok_host [simp]: "pending_ok n (st\<lparr> host := c \<rparr>) = pending_ok n st"
  by (simp add: pending_ok_def)

lemma pending_ok_idx [simp]: "pending_ok n (st\<lparr> idx := k \<rparr>) = pending_ok n st"
  by (simp add: pending_ok_def)

lemma pending_ok_leave: "in_range n sp \<Longrightarrow> pending_ok n st \<Longrightarrow> pending_ok n (leave_pending sp st)"
  by (auto simp: leave_pending_def pending_ok_def split: suspended.splits pending_point.splits list.splits)

lemma in_range_call_settled [simp]: "in_range n (Susp (CallSettled settled) [])"
  by (simp add: in_range_def)

lemma in_range_handler_settled [simp]: "in_range n (Susp (HandlerSettled j settled called) []) = (j < n)"
  by (simp add: in_range_def)

lemma in_range_append_frame:
  "in_range n (Susp point frames) \<Longrightarrow> i < n \<Longrightarrow> in_range n (Susp point (frames @ [Frame i k]))"
  by (simp add: in_range_def)

lemma start_exec_pending_ok:
  assumes "\<And>r s. pending_ok n s \<Longrightarrow> pending_ok n (snd (snxt r s)) \<and> in_range n (fst (snxt r s))"
  shows "pending_ok n st \<Longrightarrow>
         pending_ok n (snd (start_exec p snxt called st))
         \<and> (\<forall>sp k. fst (start_exec p snxt called st) = Waiting sp k \<longrightarrow> in_range n sp)"
proof (induction p arbitrary: called st)
  case (CallNext r k)
  obtain sp st' where n: "snxt r st = (sp, st')"
    by (cases "snxt r st") auto
  with assms [OF CallNext.prems, of r] show ?case
    by simp
next
  case (FireNext r p)
  obtain sp st' where n: "snxt r st = (sp, st')"
    by (cases "snxt r st") auto
  have "pending_ok n st'" and "in_range n sp"
    using assms [OF FireNext.prems, of r] n by simp_all
  then have "pending_ok n (leave_pending sp st')"
    by (intro pending_ok_leave)
  then have "pending_ok n (snd (start_exec p snxt True (leave_pending sp st')))
             \<and> (\<forall>sp' k. fst (start_exec p snxt True (leave_pending sp st')) = Waiting sp' k \<longrightarrow> in_range n sp')"
    by (rule FireNext.IH)
  with n show ?case
    by simp
next
  case (Effect f p)
  have "pending_ok n (snd (start_exec p snxt called (st\<lparr> host := f (host st) \<rparr>)))
        \<and> (\<forall>sp k. fst (start_exec p snxt called (st\<lparr> host := f (host st) \<rparr>)) = Waiting sp k \<longrightarrow> in_range n sp)"
    using Effect.prems by (intro Effect.IH) simp
  then show ?case
    by simp
next
  case (Observe k)
  have "pending_ok n (snd (start_exec (k (host st)) snxt called st))
        \<and> (\<forall>sp k'. fst (start_exec (k (host st)) snxt called st) = Waiting sp k' \<longrightarrow> in_range n sp)"
    using Observe.prems by (intro Observe.IH) simp_all
  then show ?case
    by simp
qed simp_all

lemma start_runAt_pending_ok:
  "i \<le> length chain \<Longrightarrow> pending_ok (length chain) st \<Longrightarrow>
   pending_ok (length chain) (snd (start_runAt chain finalNext ctx i st))
   \<and> in_range (length chain) (fst (start_runAt chain finalNext ctx i st))"
proof (induction chain finalNext ctx i st rule: start_runAt.induct)
  case (1 chain finalNext ctx i st)
  show ?case
  proof (cases "int i \<le> idx st")
    case True
    with "1.prems" show ?thesis
      by (simp add: start_runAt_guard)
  next
    case guard: False
    show ?thesis
    proof (cases "length chain \<le> i")
      case True
      with guard "1.prems" show ?thesis
        by (simp add: start_runAt_end split: option.splits)
    next
      case inr: False
      then have lt: "i < length chain" and suc: "Suc i \<le> length chain"
        by simp_all
      let ?snxt = "\<lambda>reqOverride s. start_runAt chain finalNext ctx (Suc i)
                                (log_event (HandlerNext i) (store_override ctx i reqOverride s))"
      let ?st1 = "log_event (EnterHandler i (arity (chain ! i))) (st\<lparr> idx := int i \<rparr>)"
      have st1: "pending_ok (length chain) ?st1"
        using "1.prems"(2) by simp
      have pres: "\<And>r s. pending_ok (length chain) s \<Longrightarrow>
                    pending_ok (length chain) (snd (?snxt r s)) \<and> in_range (length chain) (fst (?snxt r s))"
        by (intro "1.IH" [OF guard inr suc]) simp
      obtain stop st' where
        ex: "start_exec (run_body (chain ! i) ctx) ?snxt False ?st1 = (stop, st')"
        by (cases "start_exec (run_body (chain ! i) ctx) ?snxt False ?st1") auto
      have st': "pending_ok (length chain) st'"
        and wait: "\<forall>sp k. stop = Waiting sp k \<longrightarrow> in_range (length chain) sp"
        using start_exec_pending_ok [of "length chain" ?snxt ?st1 "run_body (chain ! i) ctx" False,
                                     OF pres st1] ex
        by simp_all
      show ?thesis
      proof (cases stop)
        case (Settled settled called)
        with start_runAt_handler [OF guard inr ex] st' lt show ?thesis
          by simp
      next
        case (Waiting sp k)
        obtain point frames where sp: "sp = Susp point frames"
          by (cases sp) auto
        from wait Waiting sp have "in_range (length chain) (Susp point frames)"
          by simp
        then have "in_range (length chain) (Susp point (frames @ [Frame i k]))"
          using lt by (rule in_range_append_frame)
        with start_runAt_handler [OF guard inr ex] st' Waiting sp show ?thesis
          by simp
      qed
    qed
  qed
qed

lemma exec_pending_ok:
  assumes "\<And>mode r s. pending_ok n s \<Longrightarrow> pending_ok n (snd (nxt mode r s))"
  shows "pending_ok n st \<Longrightarrow> pending_ok n (snd (exec p nxt called st))"
proof (induction p arbitrary: called st)
  case (CallNext r k)
  obtain settled st' where n: "nxt Awaited r st = (settled, st')"
    by (cases "nxt Awaited r st") auto
  have "pending_ok n st'"
    using assms [OF CallNext.prems, of Awaited r] n by simp
  then have "pending_ok n (snd (exec (k settled) nxt True st'))"
    by (intro CallNext.IH) simp_all
  with n show ?case
    by simp
next
  case (FireNext r p)
  obtain promise st' where n: "nxt Detached r st = (promise, st')"
    by (cases "nxt Detached r st") auto
  have "pending_ok n st'"
    using assms [OF FireNext.prems, of Detached r] n by simp
  then have "pending_ok n (snd (exec p nxt True st'))"
    by (intro FireNext.IH)
  with n show ?case
    by simp
next
  case (Effect f p)
  have "pending_ok n (snd (exec p nxt called (st\<lparr> host := f (host st) \<rparr>)))"
    using Effect.prems by (intro Effect.IH) simp
  then show ?case
    by simp
next
  case (Observe k)
  have "pending_ok n (snd (exec (k (host st)) nxt called st))"
    using Observe.prems by (intro Observe.IH) simp_all
  then show ?case
    by simp
qed simp_all

lemma stepNext_detached_pending_ok:
  assumes "Suc i \<le> length chain" and "pending_ok (length chain) s"
  shows "pending_ok (length chain) (snd (stepNext chain finalNext ctx i Detached r s))"
proof -
  let ?s = "log_event (HandlerNext i) (store_override ctx i r s)"
  have s: "pending_ok (length chain) ?s"
    using assms(2) by simp
  obtain sp s' where st: "start_runAt chain finalNext ctx (Suc i) ?s = (sp, s')"
    by (cases "start_runAt chain finalNext ctx (Suc i) ?s") auto
  from start_runAt_pending_ok [OF assms(1) s, of finalNext ctx] st
  have "pending_ok (length chain) s'" and "in_range (length chain) sp"
    by simp_all
  then have "pending_ok (length chain) (leave_pending sp s')"
    by (intro pending_ok_leave)
  with st show ?thesis
    by (simp add: stepNext_detached)
qed

lemma runAt_pending_ok:
  "i \<le> length chain \<Longrightarrow> pending_ok (length chain) st \<Longrightarrow>
   pending_ok (length chain) (snd (runAt chain finalNext ctx i st))"
proof (induction chain finalNext ctx i st rule: runAt.induct)
  case (1 chain finalNext ctx i st)
  show ?case
  proof (cases "int i \<le> idx st")
    case True
    with "1.prems" show ?thesis
      by (simp add: runAt_guard)
  next
    case guard: False
    show ?thesis
    proof (cases "length chain \<le> i")
      case True
      with guard "1.prems" show ?thesis
        by (simp add: runAt_end split: option.splits)
    next
      case inr: False
      then have lt: "i < length chain" and suc: "Suc i \<le> length chain"
        by simp_all
      let ?st1 = "log_event (EnterHandler i (arity (chain ! i))) (st\<lparr> idx := int i \<rparr>)"
      have st1: "pending_ok (length chain) ?st1"
        using "1.prems"(2) by simp
      have pres: "pending_ok (length chain) (snd (stepNext chain finalNext ctx i mode r s))"
        if s: "pending_ok (length chain) s" for mode r s
      proof (cases mode)
        case Awaited
        have "pending_ok (length chain)
                (snd (runAt chain finalNext ctx (Suc i) (log_event (HandlerNext i) (store_override ctx i r s))))"
          using s by (intro "1.IH"(1) [OF guard inr refl suc]) simp
        with Awaited show ?thesis
          by (simp add: stepNext_awaited)
      next
        case Detached
        with stepNext_detached_pending_ok [OF suc s] show ?thesis
          by simp
      qed
      obtain settled called st' where
        ex: "exec (run_body (chain ! i) ctx) (stepNext chain finalNext ctx i) False ?st1 = ((settled, called), st')"
        by (cases "exec (run_body (chain ! i) ctx) (stepNext chain finalNext ctx i) False ?st1") auto
      have st': "pending_ok (length chain) st'"
        using exec_pending_ok [of "length chain" "stepNext chain finalNext ctx i" ?st1
                                  "run_body (chain ! i) ctx" False, OF pres st1] ex
        by simp
      note unfold = runAt_handler [OF guard inr ex]
      show ?thesis
      proof (cases settled)
        case (Inl e)
        with unfold st' show ?thesis
          by simp
      next
        case (Inr out)
        show ?thesis
        proof (cases "\<not> is_response out \<and> out = JUndefined \<and> \<not> called")
          case True
          then have adv: "\<not> is_response out" "\<not> out \<noteq> JUndefined" "\<not> called"
            by blast+
          have adv_st: "pending_ok (length chain) (log_event (Advance i) st')"
            using st' by simp
          have ih: "pending_ok (length chain)
                      (snd (runAt chain finalNext ctx (Suc i) (log_event (Advance i) st')))"
            using "1.IH"(2) [OF guard inr _ refl Inr adv suc adv_st] ex by (simp add: stepNext_lambda)
          from unfold Inr True
          have "runAt chain finalNext ctx i st = runAt chain finalNext ctx (Suc i) (log_event (Advance i) st')"
            by simp
          with ih show ?thesis
            by simp
        next
          case False
          with unfold Inr st' show ?thesis
            by auto
        qed
      qed
    qed
  qed
qed

lemma stepNext_links_once:
  assumes "Suc i \<le> length chain" and "links_once (length chain) s"
  shows "links_once (length chain) (snd (stepNext chain finalNext ctx i mode r s))"
proof (cases mode)
  case Awaited
  have "links_once (length chain) (log_event (HandlerNext i) (store_override ctx i r s))"
    using assms(2) by (intro links_once_plain links_once_store_override) (simp_all add: is_link_def)
  from runAt_links_once [OF assms(1) this] Awaited show ?thesis
    by (simp add: stepNext_awaited)
next
  case Detached
  with stepNext_detached_links_once [OF assms] show ?thesis
    by simp
qed

lemma stepNext_pending_ok:
  assumes "Suc i \<le> length chain" and "pending_ok (length chain) s"
  shows "pending_ok (length chain) (snd (stepNext chain finalNext ctx i mode r s))"
proof (cases mode)
  case Awaited
  have "pending_ok (length chain) (log_event (HandlerNext i) (store_override ctx i r s))"
    using assms(2) by simp
  from runAt_pending_ok [OF assms(1) this] Awaited show ?thesis
    by (simp add: stepNext_awaited)
next
  case Detached
  with stepNext_detached_pending_ok [OF assms] show ?thesis
    by simp
qed

lemma handle_result_inv:
  assumes lt: "i < length chain"
    and inv: "links_once (length chain) st \<and> pending_ok (length chain) st"
  shows "links_once (length chain) (snd (handle_result chain finalNext ctx i settled called st))
         \<and> pending_ok (length chain) (snd (handle_result chain finalNext ctx i settled called st))"
proof -
  from lt have suc: "Suc i \<le> length chain"
    by simp
  have plain: "links_once (length chain) (log_event (ReturnedResponse i) st)"
       "links_once (length chain) (log_event (ReturnedValue i) st)"
       "links_once (length chain) (log_event (CompletedAfterNext i) st)"
       "links_once (length chain) (log_event (Advance i) st)"
    using inv by (simp_all add: links_once_plain is_link_def)
  have adv: "links_once (length chain) (snd (runAt chain finalNext ctx (Suc i) (log_event (Advance i) st)))"
       "pending_ok (length chain) (snd (runAt chain finalNext ctx (Suc i) (log_event (Advance i) st)))"
    using inv plain(4) by (simp_all add: runAt_links_once [OF suc] runAt_pending_ok [OF suc])
  from inv plain adv show ?thesis
    by (simp add: handle_result_def split: sum.splits)
qed

lemma exec_inv:
  assumes suc: "Suc i \<le> length chain"
    and inv: "links_once (length chain) st \<and> pending_ok (length chain) st"
  shows "links_once (length chain) (snd (exec p (stepNext chain finalNext ctx i) called st))
         \<and> pending_ok (length chain) (snd (exec p (stepNext chain finalNext ctx i) called st))"
proof
  show "links_once (length chain) (snd (exec p (stepNext chain finalNext ctx i) called st))"
    using inv by (intro exec_links_once stepNext_links_once [OF suc]) simp_all
  show "pending_ok (length chain) (snd (exec p (stepNext chain finalNext ctx i) called st))"
    using inv by (intro exec_pending_ok stepNext_pending_ok [OF suc]) simp_all
qed

lemma resume_frames_inv:
  "list_all (frame_in_range (length chain)) frames \<Longrightarrow>
   links_once (length chain) st \<and> pending_ok (length chain) st \<Longrightarrow>
   links_once (length chain) (snd (resume_frames chain finalNext ctx frames settled st))
   \<and> pending_ok (length chain) (snd (resume_frames chain finalNext ctx frames settled st))"
proof (induction frames arbitrary: settled st)
  case Nil
  then show ?case
    by simp
next
  case (Cons f frames)
  obtain j k where f: "f = Frame j k"
    by (cases f) auto
  from Cons.prems(1) f have lt: "j < length chain" and rest: "list_all (frame_in_range (length chain)) frames"
    by simp_all
  from lt have suc: "Suc j \<le> length chain"
    by simp
  obtain res called st' where
    ex: "exec (k settled) (stepNext chain finalNext ctx j) True st = ((res, called), st')"
    by (cases "exec (k settled) (stepNext chain finalNext ctx j) True st") auto
  have st': "links_once (length chain) st' \<and> pending_ok (length chain) st'"
    using exec_inv [OF suc Cons.prems(2), of "k settled" finalNext ctx True] ex by simp
  obtain res' st'' where hr: "handle_result chain finalNext ctx j res called st' = (res', st'')"
    by (cases "handle_result chain finalNext ctx j res called st'") auto
  have st'': "links_once (length chain) st'' \<and> pending_ok (length chain) st''"
    using handle_result_inv [OF lt st', of finalNext ctx res called] hr by simp
  from Cons.IH [OF rest st'', of res'] f ex hr show ?case
    by simp
qed

lemma resume_inv:
  assumes sp: "in_range (length chain) sp"
    and inv: "links_once (length chain) st \<and> pending_ok (length chain) st"
  shows "links_once (length chain) (snd (resume chain finalNext ctx sp st))
         \<and> pending_ok (length chain) (snd (resume chain finalNext ctx sp st))"
proof -
  obtain point frames where s: "sp = Susp point frames"
    by (cases sp) auto
  from sp s have frames: "list_all (frame_in_range (length chain)) frames"
    by (simp add: in_range_def)
  show ?thesis
  proof (cases point)
    case (CallSettled settled)
    with resume_frames_inv [OF frames inv, of finalNext ctx settled] s show ?thesis
      by (simp add: resume_def)
  next
    case (HandlerSettled j settled called)
    with sp s have lt: "j < length chain"
      by (simp add: in_range_def)
    obtain res st' where hr: "handle_result chain finalNext ctx j settled called st = (res, st')"
      by (cases "handle_result chain finalNext ctx j settled called st") auto
    have st': "links_once (length chain) st' \<and> pending_ok (length chain) st'"
      using handle_result_inv [OF lt inv, of finalNext ctx settled called] hr by simp
    from resume_frames_inv [OF frames st', of finalNext ctx res] s HandlerSettled hr show ?thesis
      by (simp add: resume_def)
  qed
qed

lemma run_inv:
  "links_once (length chain) (snd (run chain ctx finalNext c))
   \<and> pending_ok (length chain) (snd (run chain ctx finalNext c))"
proof -
  let ?st = "\<lparr> idx = - 1, events = [], pending = [], host = c \<rparr>"
  have l: "links_once (length chain) ?st"
    by (simp add: links_once_def link_events_def)
  have p: "pending_ok (length chain) ?st"
    by (simp add: pending_ok_def)
  from runAt_links_once [of 0 chain ?st finalNext ctx] runAt_pending_ok [of 0 chain ?st finalNext ctx] l p
  show ?thesis
    by (simp add: run_def)
qed




lemma exec_silent:
  "silent p \<Longrightarrow> exec p nxt called st = ((Inr JUndefined, called), st\<lparr> host := after_silent p (host st) \<rparr>)"
  by (induction p arbitrary: called st) simp_all

lemma advance_events_step:
  "i < length chain \<Longrightarrow>
   advance_events chain i = [EnterHandler i (arity (chain ! i)), Advance i] @ advance_events chain (Suc i)"
  by (simp add: advance_events_def upt_conv_Cons)

lemma advance_events_end: "advance_events chain (length chain) = []"
  by (simp add: advance_events_def)

lemma runAt_silent:
  assumes quiet: "\<forall>h \<in> set chain. silent (run_body h ctx)"
  shows "idx st < int i \<Longrightarrow> i \<le> length chain \<Longrightarrow>
     runAt chain (Some fin) ctx i st =
       (fst (fin (foldl (\<lambda>c h. after_silent (run_body h ctx) c) (host st) (drop i chain))),
        \<lparr> idx = int (length chain),
          events = events st @ advance_events chain i @ [ChainFinished],
          pending = pending st,
          host = snd (fin (foldl (\<lambda>c h. after_silent (run_body h ctx) c) (host st) (drop i chain))) \<rparr>)"
proof (induction "length chain - i" arbitrary: i st)
  case 0
  then have i: "i = length chain"
    by simp
  from "0.prems" have guard: "\<not> int i \<le> idx st"
    by simp
  show ?case
    using runAt_end [OF guard, of chain "Some fin" ctx] i
    by (simp add: advance_events_end log_event_def)
next
  case (Suc n)
  then have inr: "i < length chain"
    by simp
  then have nend: "\<not> length chain \<le> i"
    by simp
  from Suc.prems have guard: "\<not> int i \<le> idx st"
    by simp
  let ?p = "run_body (chain ! i) ctx"
  let ?st1 = "log_event (EnterHandler i (arity (chain ! i))) (st\<lparr> idx := int i \<rparr>)"
  let ?st' = "?st1\<lparr> host := after_silent ?p (host ?st1) \<rparr>"
  have sil: "silent ?p"
    using quiet inr by simp
  have ex: "exec ?p (stepNext chain (Some fin) ctx i) False ?st1 = ((Inr JUndefined, False), ?st')"
    using sil by (rule exec_silent)
  have step: "runAt chain (Some fin) ctx i st = runAt chain (Some fin) ctx (Suc i) (log_event (Advance i) ?st')"
    using runAt_handler [OF guard nend ex] by simp
  have n: "n = length chain - Suc i"
    using Suc.hyps(2) by simp
  have lt: "idx (log_event (Advance i) ?st') < int (Suc i)"
    by simp
  have le: "Suc i \<le> length chain"
    using inr by simp
  have dr: "drop i chain = chain ! i # drop (Suc i) chain"
    using inr by (simp add: Cons_nth_drop_Suc)
  show ?case
    unfolding step Suc.hyps(1) [OF n lt le]
    by (simp add: dr advance_events_step [OF inr])
qed

lemma link_events_pairs:
  "filter is_link (concat (map (\<lambda>j. [EnterHandler j (arity (chain ! j)), Advance j]) js))
     = map (\<lambda>j. EnterHandler j (arity (chain ! j))) js"
  by (induction js) (simp_all add: is_link_def)

lemma link_events_advance:
  "link_events (advance_events chain i) = map (\<lambda>j. EnterHandler j (arity (chain ! j))) [i..<length chain]"
  by (simp add: advance_events_def link_events_def link_events_pairs)

text \<open>
  C7. When no handler of the chain returns a value or calls its continuation, the run
  enters handlers 0, 1, ..., N - 1 in this order, advancing past each, then reaches the
  end of the chain once: the result and the final shared state are those of one call
  of the final continuation on the state the handlers left.
\<close>

theorem c7_silent_chain_reaches_final:
  assumes quiet: "\<forall>h \<in> set chain. silent (run_body h ctx)"
  shows "run chain ctx (Some fin) c =
           (fst (fin (foldl (\<lambda>c h. after_silent (run_body h ctx) c) c chain)),
            \<lparr> idx = int (length chain),
              events = advance_events chain 0 @ [ChainFinished],
              pending = [],
              host = snd (fin (foldl (\<lambda>c h. after_silent (run_body h ctx) c) c chain)) \<rparr>)
       \<and> link_events (advance_events chain 0 @ [ChainFinished])
           = map (\<lambda>j. EnterHandler j (arity (chain ! j))) [0..<length chain] @ [ChainFinished]
       \<and> length (filter (\<lambda>ev. ev = ChainFinished) (advance_events chain 0 @ [ChainFinished])) = 1"
proof (intro conjI)
  show "run chain ctx (Some fin) c =
           (fst (fin (foldl (\<lambda>c h. after_silent (run_body h ctx) c) c chain)),
            \<lparr> idx = int (length chain),
              events = advance_events chain 0 @ [ChainFinished],
              pending = [],
              host = snd (fin (foldl (\<lambda>c h. after_silent (run_body h ctx) c) c chain)) \<rparr>)"
    unfolding run_def using runAt_silent [OF quiet, of "\<lparr> idx = - 1, events = [], pending = [], host = c \<rparr>" 0 fin]
    by simp
next
  show "link_events (advance_events chain 0 @ [ChainFinished])
           = map (\<lambda>j. EnterHandler j (arity (chain ! j))) [0..<length chain] @ [ChainFinished]"
    by (simp add: link_events_advance) (simp add: link_events_def is_link_def)
next
  have "filter (\<lambda>ev. ev = ChainFinished)
          (concat (map (\<lambda>j. [EnterHandler j (arity (chain ! j)), Advance j]) js)) = []" for js
    by (induction js) simp_all
  then show "length (filter (\<lambda>ev. ev = ChainFinished) (advance_events chain 0 @ [ChainFinished])) = 1"
    by (simp add: advance_events_def)
qed

theorem c7_silent_chain_reaches_final_witness:
  "fst (run [quiet, quiet] sample_ctx (Some text_downstream) fresh_hono) = Inr (JStr ''hello'')
   \<and> events (snd (run [quiet, quiet] sample_ctx (Some text_downstream) fresh_hono))
       = [EnterHandler 0 1, Advance 0, EnterHandler 1 1, Advance 1, ChainFinished]"
proof -
  have q: "\<forall>h \<in> set [quiet, quiet]. silent (run_body h sample_ctx)"
    by (simp add: quiet_def)
  have ev: "advance_events [quiet, quiet] 0 = [EnterHandler 0 1, Advance 0, EnterHandler 1 1, Advance 1]"
    by code_simp
  from c7_silent_chain_reaches_final [OF q, of text_downstream fresh_hono] ev show ?thesis
    by (simp add: text_downstream_def)
qed

text \<open>
  C3, as the code has it. When handler \<open>i\<close> returns no value but has invoked its
  continuation, the result of the chain at position \<open>i\<close> is no value
  (\<^verbatim>\<open>undefined\<close>): \<^verbatim>\<open>runAt\<close> returns the handler's own \<^verbatim>\<open>out\<close>, and what the
  continuation resolved to is not passed on.
\<close>

theorem c3_no_value_after_next:
  assumes fresh: "idx st < int i" and inr: "i < length chain"
    and finished: "exec (run_body (chain ! i) ctx) (stepNext chain finalNext ctx i) False
                 (log_event (EnterHandler i (arity (chain ! i))) (st\<lparr> idx := int i \<rparr>))
               = ((Inr JUndefined, True), st')"
  shows "runAt chain finalNext ctx i st = (Inr JUndefined, log_event (CompletedAfterNext i) st')"
proof -
  from fresh have guard: "\<not> int i \<le> idx st"
    by simp
  from inr have nend: "\<not> length chain \<le> i"
    by simp
  from runAt_handler [OF guard nend finished] show ?thesis
    by simp
qed

theorem c3_no_value_after_next_witness:
  "runAt [pass_through] (Some text_downstream) sample_ctx 0 \<lparr> idx = - 1, events = [], pending = [], host = fresh_hono \<rparr>
     = (Inr JUndefined,
        \<lparr> idx = 1, events = [EnterHandler 0 2, HandlerNext 0, ChainFinished, CompletedAfterNext 0],
          pending = [], host = fresh_hono \<rparr>)"
proof -
  let ?st = "\<lparr> idx = - 1, events = [], pending = [], host = fresh_hono \<rparr>"
  let ?st' = "\<lparr> idx = 1, events = [EnterHandler 0 2, HandlerNext 0, ChainFinished], pending = [],
               host = fresh_hono \<rparr>"
  have fresh: "idx ?st < int 0"
    by simp
  have inr: "0 < length [pass_through]"
    by simp
  have finished: "exec (run_body ([pass_through] ! 0) sample_ctx)
                (stepNext [pass_through] (Some text_downstream) sample_ctx 0) False
                (log_event (EnterHandler 0 (arity ([pass_through] ! 0))) (?st\<lparr> idx := int 0 \<rparr>))
              = ((Inr JUndefined, True), ?st')"
    by (simp add: pass_through_def stepNext_def runAt_end text_downstream_def store_override_def log_event_def)
  from c3_no_value_after_next [OF fresh inr finished] show ?thesis
    by (simp add: log_event_def)
qed

text \<open>
  C3 as the specification words it fails: the handler \<^verbatim>\<open>async (ctx, next) => { await next() }\<close>
  over a final continuation that resolves to a string. The continuation of position 0
  resolves to the string, the chain at position 0 to \<^verbatim>\<open>undefined\<close>.
\<close>

theorem c3_continuation_result_dropped:
  "fst (stepNext [pass_through] (Some text_downstream) sample_ctx 0 Awaited None
          (log_event (EnterHandler 0 2) \<lparr> idx = 0, events = [], pending = [], host = fresh_hono \<rparr>))
     = Inr (JStr ''hello'')
   \<and> fst (runAt [pass_through] (Some text_downstream) sample_ctx 0
            \<lparr> idx = - 1, events = [], pending = [], host = fresh_hono \<rparr>)
     = Inr JUndefined
   \<and> events (snd (runAt [pass_through] (Some text_downstream) sample_ctx 0
                    \<lparr> idx = - 1, events = [], pending = [], host = fresh_hono \<rparr>))
     = [EnterHandler 0 2, HandlerNext 0, ChainFinished, CompletedAfterNext 0]"
  by code_simp

lemma callables_filter: "callables (filter is_callable es) = callables es"
  by (induction es rule: callables.induct) (simp_all add: is_callable_def)

lemma callables_are_the_functions: "map Fn (callables es) = filter is_callable es"
  by (induction es rule: callables.induct) (simp_all add: is_callable_def)

lemma callables_none: "list_all (\<lambda>e. \<not> is_callable e) es \<Longrightarrow> callables es = []"
  by (induction es rule: callables.induct) (simp_all add: is_callable_def)



section \<open>Registration order of the middleware\<close>

lemma depth_of_collected:
  "m \<in> set (collect_mwAll entries) \<Longrightarrow> depth m = length (split_on CHR ''/'' (mwRoute m))"
  by (auto simp: collect_mwAll_def mw_items_of_def split: if_splits option.splits)

text \<open>
  C9. The first pass registers the ALL-method middleware in ascending order of the
  segment depth of their wildcard routes: the registered list is the collected list
  sorted by depth, so of two middleware the one of smaller depth is registered first,
  and middleware of equal depth keep the order in which they were collected. The depth
  of an item is the number of pieces of its wildcard route split at the slashes.
\<close>

theorem c9_middleware_registered_by_depth:
  "map use_route (pass1 entries app) = map use_route app @ map mwRoute (sorted_mwAll entries)
   \<and> sorted (map depth (sorted_mwAll entries))
   \<and> mset (sorted_mwAll entries) = mset (collect_mwAll entries)
   \<and> (\<forall>i j. i < length (sorted_mwAll entries) \<and> j < length (sorted_mwAll entries)
          \<and> depth (sorted_mwAll entries ! i) < depth (sorted_mwAll entries ! j) \<longrightarrow> i < j)
   \<and> (\<forall>k. filter (\<lambda>m. depth m = k) (sorted_mwAll entries) = filter (\<lambda>m. depth m = k) (collect_mwAll entries))
   \<and> (\<forall>m \<in> set (sorted_mwAll entries). depth m = length (split_on CHR ''/'' (mwRoute m)))"
proof (intro conjI allI impI ballI)
  show "map use_route (pass1 entries app) = map use_route app @ map mwRoute (sorted_mwAll entries)"
    by (simp add: pass1_def use_route_def comp_def)
next
  show srt: "sorted (map depth (sorted_mwAll entries))"
    by (simp add: sorted_mwAll_def)
  fix i j
  assume a: "i < length (sorted_mwAll entries) \<and> j < length (sorted_mwAll entries)
          \<and> depth (sorted_mwAll entries ! i) < depth (sorted_mwAll entries ! j)"
  show "i < j"
  proof (rule ccontr)
    assume "\<not> i < j"
    then have "j \<le> i"
      by simp
    with srt a have "map depth (sorted_mwAll entries) ! j \<le> map depth (sorted_mwAll entries) ! i"
      by (intro sorted_nth_mono) simp_all
    with a show False
      by simp
  qed
next
  show "mset (sorted_mwAll entries) = mset (collect_mwAll entries)"
    by (simp add: sorted_mwAll_def)
next
  fix k
  show "filter (\<lambda>m. depth m = k) (sorted_mwAll entries) = filter (\<lambda>m. depth m = k) (collect_mwAll entries)"
    by (simp add: sorted_mwAll_def sort_key_stable)
next
  fix m
  assume "m \<in> set (sorted_mwAll entries)"
  then have "m \<in> set (collect_mwAll entries)"
    by (simp add: sorted_mwAll_def)
  then show "depth m = length (split_on CHR ''/'' (mwRoute m))"
    by (rule depth_of_collected)
qed

theorem c9_middleware_registered_by_depth_witness:
  "map mwRoute (collect_mwAll sample_modules) = [''/api/*'', ''/*'']
   \<and> map use_route (pass1 sample_modules []) = [''/*'', ''/api/*'']
   \<and> sorted (map depth (sorted_mwAll sample_modules))"
proof -
  have found: "map mwRoute (collect_mwAll sample_modules) = [''/api/*'', ''/*'']"
    by code_simp
  have ordered: "map mwRoute (sorted_mwAll sample_modules) = [''/*'', ''/api/*'']"
    by code_simp
  from c9_middleware_registered_by_depth [of sample_modules "[]"]
  have "map use_route (pass1 sample_modules []) = map use_route [] @ map mwRoute (sorted_mwAll sample_modules)
        \<and> sorted (map depth (sorted_mwAll sample_modules))"
    by blast
  with found ordered show ?thesis
    by simp
qed

end
